theory Spec2Isabelle
  imports Main "HOL-Library.List_Lexorder" "HOL-Library.Product_Lexorder"
begin

section \<open>Python strings\<close>

text \<open>
  A Python \<open>str\<close> is a sequence of Unicode code points. Isabelle's \<open>char\<close> is a byte,
  so a string is modelled as a list of code points (natural numbers); \<open>py\<close> embeds an
  ASCII literal. \<open>str.splitlines\<close> breaks at code points beyond one byte (U+2028,
  U+2029), and the markers of the structure summary contain such code points too.
\<close>

type_synonym pystr = "nat list"

definition py :: "string \<Rightarrow> pystr" where
  "py s = map of_char s"

text \<open>\<open>s.startswith(p)\<close> and \<open>s.endswith(p)\<close>.\<close>

definition startswith :: "pystr \<Rightarrow> pystr \<Rightarrow> bool" where
  "startswith s p = (take (length p) s = p)"

definition endswith :: "pystr \<Rightarrow> pystr \<Rightarrow> bool" where
  "endswith s p = (length p \<le> length s \<and> drop (length s - length p) s = p)"

text \<open>
  Python's slice \<open>xs[a:b]\<close> for integers \<open>a\<close>, \<open>b\<close>: a negative index counts from
  the end, and both are clamped to the list.
\<close>

definition slice_index :: "nat \<Rightarrow> int \<Rightarrow> nat" where
  "slice_index n i = (if i < 0 then nat (max (i + int n) 0) else min (nat i) n)"

definition py_slice :: "'a list \<Rightarrow> int \<Rightarrow> int \<Rightarrow> 'a list" where
  "py_slice xs a b =
     (let a' = slice_index (length xs) a; b' = slice_index (length xs) b
      in take (b' - a') (drop a' xs))"

section \<open>The chunk splitter\<close>

text \<open>
  \<open>str.splitlines(keepends=True)\<close>: a line ends after a line boundary, which is one of
  LF, VT, FF, CR, FS, GS, RS, NEL (U+0085), LS (U+2028), PS (U+2029), or the pair CR LF.
  Every line keeps its terminator; text after the last boundary is a last line, and there
  is no empty last line.
\<close>

definition is_linebreak :: "nat \<Rightarrow> bool" where
  "is_linebreak c = (c = 10 \<or> c = 11 \<or> c = 12 \<or> c = 13 \<or> c = 28 \<or> c = 29 \<or> c = 30
                      \<or> c = 133 \<or> c = 8232 \<or> c = 8233)"

fun splitlines_from :: "pystr \<Rightarrow> pystr \<Rightarrow> pystr list" where
  "splitlines_from cur [] = (if cur = [] then [] else [cur])"
| "splitlines_from cur (c # cs) =
     (if c = 13 \<and> cs \<noteq> [] \<and> hd cs = 10 then (cur @ [13, 10]) # splitlines_from [] (tl cs)
      else if is_linebreak c then (cur @ [c]) # splitlines_from [] cs
      else splitlines_from (cur @ [c]) cs)"

definition splitlines :: "pystr \<Rightarrow> pystr list" where
  "splitlines s = splitlines_from [] s"

definition file_marker :: pystr where
  "file_marker = py ''>>>File: ''"

text \<open>
  \<open>marker_indices\<close>: the dummy index \<open>-1\<close>, then the index of every line that starts
  with the file marker.
\<close>

definition marker_indices :: "pystr list \<Rightarrow> int list" where
  "marker_indices lines =
     (- 1) # [int i. (i, line) \<leftarrow> enumerate 0 lines, startswith line file_marker]"

text \<open>
  The block of iteration \<open>i\<close> of the loop over \<open>marker_indices\<close>: the lines after the
  marker up to the next marker (or the end), with the marker line itself put in front
  when \<open>i > 0\<close>. The index \<open>marker_indices[i]\<close> of a marker line is within \<open>lines\<close> by
  construction. \<open>block_line_count\<close> is the length of the resulting list in both cases.
\<close>

definition block_lines_at :: "pystr list \<Rightarrow> int list \<Rightarrow> nat \<Rightarrow> pystr list" where
  "block_lines_at lines mi i =
     (let start_index = mi ! i + 1;
          end_index = (if i + 1 < length mi then mi ! (i + 1) else int (length lines));
          block_lines = py_slice lines start_index end_index
      in if i > 0 then lines ! nat (mi ! i) # block_lines else block_lines)"

record split_state =
  parts :: "pystr list"
  current_part_lines :: "pystr list"
  current_line_count :: int

definition finalize_part :: "split_state \<Rightarrow> split_state" where
  "finalize_part st =
     st\<lparr>parts := parts st @ [concat (current_part_lines st)],
        current_part_lines := [], current_line_count := 0\<rparr>"

text \<open>One iteration of the loop, for the block of that iteration.\<close>

definition split_step :: "int \<Rightarrow> pystr list \<Rightarrow> split_state \<Rightarrow> split_state" where
  "split_step max_lines block_lines st =
     (let block_line_count = int (length block_lines) in
      if block_lines = [] then st
      else if block_line_count > max_lines then
        (let st1 = (if current_part_lines st \<noteq> [] then finalize_part st else st)
         in st1\<lparr>parts := parts st1 @ [concat block_lines]\<rparr>)
      else
        (let st1 = (if current_line_count st > 0
                       \<and> current_line_count st + block_line_count > max_lines
                    then finalize_part st else st)
         in st1\<lparr>current_part_lines := current_part_lines st1 @ block_lines,
                current_line_count := current_line_count st1 + block_line_count\<rparr>))"

definition split_loop :: "int \<Rightarrow> pystr list \<Rightarrow> split_state" where
  "split_loop max_lines lines =
     (let mi = marker_indices lines
      in fold (\<lambda>i. split_step max_lines (block_lines_at lines mi i)) [0..<length mi]
           \<lparr>parts = [], current_part_lines = [], current_line_count = 0\<rparr>)"

definition split_content_smart :: "pystr \<Rightarrow> int \<Rightarrow> pystr list" where
  "split_content_smart content max_lines =
     (if content = [] then []
      else let lines = splitlines content in
        if lines = [] then []
        else let st = split_loop max_lines lines in
          if current_part_lines st \<noteq> [] then parts st @ [concat (current_part_lines st)]
          else parts st)"

text \<open>
  The blocks of the loop, in the order of its iterations: the text before the first
  marker line, then one block per marker line, from that line up to the line before the
  next marker line.
\<close>

definition blocks :: "pystr list \<Rightarrow> pystr list list" where
  "blocks lines = (let mi = marker_indices lines in map (block_lines_at lines mi) [0..<length mi])"

text \<open>The natural-number positions of the marker lines.\<close>

definition marker_positions :: "pystr list \<Rightarrow> nat list" where
  "marker_positions lines = [i. (i, line) \<leftarrow> enumerate 0 lines, startswith line file_marker]"

text \<open>Auxiliary notions for the proofs: the lines from index \<open>a\<close> up to \<open>b\<close>, and the
  consecutive pieces cut at a list of positions.\<close>

definition seg :: "'a list \<Rightarrow> nat \<Rightarrow> nat \<Rightarrow> 'a list" where
  "seg xs a b = take (b - a) (drop a xs)"

fun segs :: "'a list \<Rightarrow> nat \<Rightarrow> nat list \<Rightarrow> 'a list list" where
  "segs xs a [] = [seg xs a (length xs)]"
| "segs xs a (c # cs) = seg xs a c # segs xs c cs"

text \<open>
  A group of blocks is an admissible segment when it is not empty and either its lines
  are within the budget or it is one block that alone is over the budget.
\<close>

definition seg_ok :: "int \<Rightarrow> pystr list list \<Rightarrow> bool" where
  "seg_ok max_lines g = (g \<noteq> [] \<and> (int (length (concat g)) \<le> max_lines
                           \<or> (\<exists>b. g = [b] \<and> max_lines < int (length b))))"

text \<open>
  The invariant of the loop after the blocks \<open>bs\<close>: the finished parts are the groups
  \<open>gs\<close>, the pending part is the group \<open>cg\<close>, together they are the non-empty blocks
  seen so far, and the counter is the number of pending lines.
\<close>

definition split_inv ::
  "int \<Rightarrow> pystr list list \<Rightarrow> split_state \<Rightarrow> pystr list list list \<Rightarrow> pystr list list \<Rightarrow> bool" where
  "split_inv m bs st gs cg =
     (parts st = map (concat \<circ> concat) gs \<and> current_part_lines st = concat cg
      \<and> concat gs @ cg = filter (\<lambda>b. b \<noteq> []) bs
      \<and> (\<forall>b\<in>set cg. b \<noteq> [])
      \<and> current_line_count st = int (length (concat cg))
      \<and> (cg \<noteq> [] \<longrightarrow> int (length (concat cg)) \<le> m)
      \<and> (\<forall>g\<in>set gs. seg_ok m g))"

text \<open>
  What \<open>splitlines\<close> returns: every line but the last ends in one line boundary and has
  no other; a line ending in CR is not followed by LF; the last line may have no boundary.
\<close>

definition no_break :: "pystr \<Rightarrow> bool" where
  "no_break l = (\<forall>c\<in>set l. \<not> is_linebreak c)"

definition terminated :: "pystr \<Rightarrow> bool" where
  "terminated l = (\<exists>body. no_break body \<and> (l = body @ [13, 10] \<or> (\<exists>c. is_linebreak c \<and> l = body @ [c])))"

fun lines_ok :: "pystr list \<Rightarrow> bool" where
  "lines_ok [] = True"
| "lines_ok (l # ls) =
     ((terminated l \<and> \<not> (last l = 13 \<and> concat ls \<noteq> [] \<and> hd (concat ls) = 10)
       \<or> (ls = [] \<and> l \<noteq> [] \<and> no_break l)) \<and> lines_ok ls)"

section \<open>Shell patterns: \<open>fnmatch.fnmatchcase\<close>\<close>

text \<open>
  The matcher calls \<open>fnmatch.fnmatchcase(name, pat)\<close> of the Python standard library,
  which translates the pattern to a regular expression (\<open>fnmatch.translate\<close>) and asks
  for a match of the whole name. The model follows \<open>translate\<close> of CPython 3.9 and later:
  \<open>*\<close> is any run of characters, \<open>?\<close> is any one character (the expression is compiled
  with DOTALL, so also a line break and also \<open>/\<close>), \<open>[...]\<close> is a character set whose
  text is rewritten before it is handed to \<open>re\<close>, an unclosed \<open>[\<close> is the character
  itself, and every other character stands for itself.
\<close>

datatype glob_item = STAR | ANY | NEVER | LITERAL nat | CLASS pystr

text \<open>
  After an opening bracket, \<open>bracket_end\<close> is the index of the closing bracket in the
  rest of the pattern: a leading \<open>!\<close> and a \<open>]\<close> right after are passed over first.
\<close>

definition bracket_end :: "pystr \<Rightarrow> nat option" where
  "bracket_end s =
     (let j0 = (if 0 < length s \<and> s ! 0 = 33 then 1 else 0);
          j1 = (if j0 < length s \<and> s ! j0 = 93 then j0 + 1 else j0);
          j = j1 + length (takeWhile (\<lambda>c. c \<noteq> 93) (drop j1 s))
      in if j \<ge> length s then None else Some j)"

text \<open>The replacements: a backslash, a hyphen, and \<open>&\<close>, \<open>~\<close>, \<open>|\<close> get a backslash in front.\<close>

definition esc_backslash :: "pystr \<Rightarrow> pystr" where
  "esc_backslash s = concat (map (\<lambda>c. if c = 92 then [92, 92] else [c]) s)"

definition esc_hyphen :: "pystr \<Rightarrow> pystr" where
  "esc_hyphen s = concat (map (\<lambda>c. if c = 45 then [92, 45] else [c]) s)"

definition esc_setops :: "pystr \<Rightarrow> pystr" where
  "esc_setops s = concat (map (\<lambda>c. if c = 38 \<or> c = 126 \<or> c = 124 then [92, c] else [c]) s)"

text \<open>
  The chunks between the hyphens that stand for ranges. The search for the next hyphen
  starts one character into the set (two after a leading \<open>!\<close>) and, after a hyphen, two
  characters further on: \<open>chunks_scan acc skip rest\<close> takes \<open>skip\<close> characters as they are
  and then reads up to the next hyphen.
\<close>

fun chunks_scan :: "pystr \<Rightarrow> nat \<Rightarrow> pystr \<Rightarrow> pystr list" where
  "chunks_scan acc skip [] = [acc]"
| "chunks_scan acc (Suc n) (c # cs) = chunks_scan (acc @ [c]) n cs"
| "chunks_scan acc 0 (c # cs) =
     (if c = 45 then acc # chunks_scan [] 2 cs else chunks_scan (acc @ [c]) 0 cs)"

text \<open>An empty last chunk is dropped and its hyphen is added to the chunk before.\<close>

definition class_chunks :: "pystr \<Rightarrow> pystr list" where
  "class_chunks stuff =
     (let cs = chunks_scan [] (if stuff \<noteq> [] \<and> hd stuff = 33 then 2 else 1) stuff
      in if 2 \<le> length cs \<and> last cs = []
         then butlast (butlast cs) @ [last (butlast cs) @ [45]] else cs)"

text \<open>
  Empty ranges are removed from the right to the left: where the last character of a chunk
  is greater than the first of the next chunk, both characters go and the chunks are
  joined. (Neither chunk is empty there in a run of \<open>translate\<close>.)
\<close>

fun remove_empty_ranges :: "pystr list \<Rightarrow> pystr list" where
  "remove_empty_ranges [] = []"
| "remove_empty_ranges [c] = [c]"
| "remove_empty_ranges (c # d # ds) =
     (case remove_empty_ranges (d # ds) of
        [] \<Rightarrow> [c]
      | e # es \<Rightarrow> if c \<noteq> [] \<and> e \<noteq> [] \<and> last c > hd e then (butlast c @ tl e) # es
                 else c # e # es)"

fun join_hyphen :: "pystr list \<Rightarrow> pystr" where
  "join_hyphen [] = []"
| "join_hyphen [c] = c"
| "join_hyphen (c # d # ds) = c @ [45] @ join_hyphen (d # ds)"

definition translate_class :: "pystr \<Rightarrow> glob_item" where
  "translate_class stuff0 =
     (let stuff1 = (if 45 \<notin> set stuff0 then esc_backslash stuff0
                    else join_hyphen (map (\<lambda>s. esc_hyphen (esc_backslash s))
                           (remove_empty_ranges (class_chunks stuff0))));
          stuff = esc_setops stuff1
      in if stuff = [] then NEVER
         else if stuff = [33] then ANY
         else if hd stuff = 33 then CLASS (94 # tl stuff)
         else if hd stuff = 94 \<or> hd stuff = 91 then CLASS (92 # stuff)
         else CLASS stuff)"

fun translate :: "pystr \<Rightarrow> glob_item list" where
  "translate [] = []"
| "translate (c # cs) =
     (if c = 42 then STAR # translate cs
      else if c = 63 then ANY # translate cs
      else if c = 91 then
        (case bracket_end cs of
           None \<Rightarrow> LITERAL 91 # translate cs
         | Some j \<Rightarrow> translate_class (take j cs) # translate (drop (Suc j) cs))
      else LITERAL c # translate cs)"

text \<open>
  A character set as \<open>re\<close> reads it: a leading \<open>^\<close> negates; a backslash makes the next
  character literal; an item, a hyphen and another item are a range, and a hyphen with
  nothing after it is literal.
\<close>

fun class_tokens :: "pystr \<Rightarrow> (bool \<times> nat) list" where
  "class_tokens [] = []"
| "class_tokens [c] = [(False, c)]"
| "class_tokens (c # d # r) =
     (if c = 92 then (True, d) # class_tokens r else (False, c) # class_tokens (d # r))"

fun class_ranges :: "(bool \<times> nat) list \<Rightarrow> (nat \<times> nat) list" where
  "class_ranges [] = []"
| "class_ranges [t] = [(snd t, snd t)]"
| "class_ranges (lo # h # r) =
     (if h = (False, 45) then
        (case r of [] \<Rightarrow> [(snd lo, snd lo), (45, 45)]
         | hi # r' \<Rightarrow> (snd lo, snd hi) # class_ranges r')
      else (snd lo, snd lo) # class_ranges (h # r))"

definition class_match :: "pystr \<Rightarrow> nat \<Rightarrow> bool" where
  "class_match s c =
     (if s \<noteq> [] \<and> hd s = 94
      then \<not> list_ex (\<lambda>(lo, hi). lo \<le> c \<and> c \<le> hi) (class_ranges (class_tokens (tl s)))
      else list_ex (\<lambda>(lo, hi). lo \<le> c \<and> c \<le> hi) (class_ranges (class_tokens s)))"

fun item_match :: "glob_item \<Rightarrow> nat \<Rightarrow> bool" where
  "item_match STAR c = True"
| "item_match ANY c = True"
| "item_match NEVER c = False"
| "item_match (LITERAL x) c = (x = c)"
| "item_match (CLASS s) c = class_match s c"

fun glob_match :: "glob_item list \<Rightarrow> pystr \<Rightarrow> bool" where
  "glob_match [] s = (s = [])"
| "glob_match (STAR # ts) [] = glob_match ts []"
| "glob_match (STAR # ts) (c # r) = (glob_match ts (c # r) \<or> glob_match (STAR # ts) r)"
| "glob_match (t # ts) [] = False"
| "glob_match (t # ts) (c # r) = (item_match t c \<and> glob_match ts r)"

definition fnmatchcase :: "pystr \<Rightarrow> pystr \<Rightarrow> bool" where
  "fnmatchcase name pat = glob_match (translate pat) name"

section \<open>The ignore file and the ignore-pattern matcher\<close>

text \<open>String operations of Python used below, for one character \<open>c\<close>:
  \<open>s.rstrip(c)\<close>, \<open>s.lstrip(c)\<close>, \<open>s.split(c)\<close>, and \<open>os.path.basename\<close> (the text after
  the last \<open>/\<close>). The model is of a POSIX system: \<open>os.sep\<close> is \<open>/\<close>, so
  \<open>rel_path.replace(os.sep, '/')\<close> is \<open>rel_path\<close>.\<close>

definition rstrip_char :: "nat \<Rightarrow> pystr \<Rightarrow> pystr" where
  "rstrip_char c s = rev (dropWhile (\<lambda>x. x = c) (rev s))"

definition lstrip_char :: "nat \<Rightarrow> pystr \<Rightarrow> pystr" where
  "lstrip_char c s = dropWhile (\<lambda>x. x = c) s"

fun split_from :: "nat \<Rightarrow> pystr \<Rightarrow> pystr \<Rightarrow> pystr list" where
  "split_from c acc [] = [acc]"
| "split_from c acc (x # xs) =
     (if x = c then acc # split_from c [] xs else split_from c (acc @ [x]) xs)"

definition py_split :: "nat \<Rightarrow> pystr \<Rightarrow> pystr list" where
  "py_split c s = split_from c [] s"

definition basename :: "pystr \<Rightarrow> pystr" where
  "basename p = rev (takeWhile (\<lambda>c. c \<noteq> 47) (rev p))"

text \<open>
  \<open>_load_gitignore\<close>. The file is opened in text mode, so \<open>CR LF\<close> and \<open>CR\<close> arrive as
  \<open>LF\<close> and the loop reads the lines that end at each \<open>LF\<close>. \<open>line.strip()\<close> removes
  the white space (the characters for which \<open>str.isspace\<close> holds) at both ends.
  The argument is the decoded text of the file, or \<open>None\<close> when the file does not exist
  or cannot be read; then, and when \<open>use_gitignore\<close> is off, the pattern list stays empty.
\<close>

fun universal_newlines :: "pystr \<Rightarrow> pystr" where
  "universal_newlines [] = []"
| "universal_newlines [c] = (if c = 13 then [10] else [c])"
| "universal_newlines (c # d # r) =
     (if c = 13 \<and> d = 10 then 10 # universal_newlines r
      else if c = 13 then 10 # universal_newlines (d # r)
      else c # universal_newlines (d # r))"

fun file_lines_from :: "pystr \<Rightarrow> pystr \<Rightarrow> pystr list" where
  "file_lines_from cur [] = (if cur = [] then [] else [cur])"
| "file_lines_from cur (c # cs) =
     (if c = 10 then (cur @ [c]) # file_lines_from [] cs else file_lines_from (cur @ [c]) cs)"

definition file_lines :: "pystr \<Rightarrow> pystr list" where
  "file_lines text = file_lines_from [] (universal_newlines text)"

definition isspace :: "nat \<Rightarrow> bool" where
  "isspace c = ((9 \<le> c \<and> c \<le> 13) \<or> (28 \<le> c \<and> c \<le> 32) \<or> c = 133 \<or> c = 160 \<or> c = 5760
                 \<or> (8192 \<le> c \<and> c \<le> 8202) \<or> c = 8232 \<or> c = 8233 \<or> c = 8239 \<or> c = 8287
                 \<or> c = 12288)"

definition strip :: "pystr \<Rightarrow> pystr" where
  "strip s = rev (dropWhile isspace (rev (dropWhile isspace s)))"

definition load_gitignore :: "bool \<Rightarrow> pystr option \<Rightarrow> pystr list" where
  "load_gitignore use_gitignore file =
     (if use_gitignore then
        (case file of
           None \<Rightarrow> []
         | Some text \<Rightarrow> [strip line. line \<leftarrow> file_lines text,
                          strip line \<noteq> [] \<and> \<not> startswith (strip line) (py ''#'')])
      else [])"

text \<open>
  One iteration of the loop of \<open>_is_excluded_by_gitignore\<close>, in its steps: the negation
  flag, the pattern without its \<open>!\<close>, the directory flag, the pattern without its trailing
  slashes, and the match of that pattern against the path. \<open>is_dir\<close> is what
  \<open>os.path.isdir\<close> answers for the path.
\<close>

definition is_negation :: "pystr \<Rightarrow> bool" where
  "is_negation pattern = startswith pattern (py ''!'')"

definition pattern_body :: "pystr \<Rightarrow> pystr" where
  "pattern_body pattern = (if is_negation pattern then drop 1 pattern else pattern)"

definition is_dir_pattern :: "pystr \<Rightarrow> bool" where
  "is_dir_pattern pattern = endswith (pattern_body pattern) (py ''/'')"

definition pattern_core :: "pystr \<Rightarrow> pystr" where
  "pattern_core pattern = rstrip_char 47 (pattern_body pattern)"

definition raw_match :: "pystr \<Rightarrow> pystr \<Rightarrow> bool \<Rightarrow> bool" where
  "raw_match pattern path_to_check is_dir =
     (if startswith pattern (py ''/'') then
        (let pattern' = lstrip_char 47 pattern
         in fnmatchcase path_to_check pattern'
            \<or> (is_dir \<and> startswith path_to_check (pattern' @ py ''/''))
            \<or> (\<not> is_dir \<and> startswith path_to_check (pattern' @ py ''/'')))
      else
        (let components = py_split 47 path_to_check
         in fnmatchcase (basename path_to_check) pattern
            \<or> list_ex (\<lambda>comp. fnmatchcase comp pattern) components))"

fun is_excluded_by_gitignore :: "pystr list \<Rightarrow> pystr \<Rightarrow> bool \<Rightarrow> bool" where
  "is_excluded_by_gitignore [] rel_path is_dir = False"
| "is_excluded_by_gitignore (pattern # rest) rel_path is_dir =
     (if is_negation pattern \<and> pattern_body pattern = [] then
        is_excluded_by_gitignore rest rel_path is_dir
      else if pattern_core pattern = [] then
        is_excluded_by_gitignore rest rel_path is_dir
      else
        (let match0 = raw_match (pattern_core pattern) rel_path is_dir;
             match = (if match0 \<and> is_dir_pattern pattern \<and> \<not> is_dir then False else match0)
         in if match then (if is_negation pattern then False else True)
            else is_excluded_by_gitignore rest rel_path is_dir))"

text \<open>
  The pattern matcher of the specification: the value of \<open>match\<close> that the iteration for
  a pattern reaches, and no match for a pattern that the loop passes over.
\<close>

definition pattern_matches :: "pystr \<Rightarrow> pystr \<Rightarrow> bool \<Rightarrow> bool" where
  "pattern_matches pattern rel_path is_dir =
     (pattern_core pattern \<noteq> []
      \<and> raw_match (pattern_core pattern) rel_path is_dir
      \<and> \<not> (is_dir_pattern pattern \<and> \<not> is_dir))"

text \<open>A pattern text without the characters that \<open>translate\<close> treats specially.\<close>

definition plain_chars :: "pystr \<Rightarrow> bool" where
  "plain_chars l = (\<forall>c\<in>set l. c \<noteq> 42 \<and> c \<noteq> 63 \<and> c \<noteq> 91)"

section \<open>The tree collector\<close>

text \<open>
  The directory tree under the root, as \<open>os.walk\<close> reads it: a directory is the list of
  its entries in the order in which \<open>os.scandir\<close> returns them, and an entry is a file
  with its name or a directory with its name and its entries. A directory that \<open>os.walk\<close>
  lists and does not enter (a link to a directory, or one it cannot read) is a directory
  without entries.
\<close>

datatype fsnode = File pystr | Dir pystr "fsnode list"

fun node_name :: "fsnode \<Rightarrow> pystr" where
  "node_name (File f) = f"
| "node_name (Dir d sub) = d"

fun node_is_dir :: "fsnode \<Rightarrow> bool" where
  "node_is_dir (File f) = False"
| "node_is_dir (Dir d sub) = True"

text \<open>The lists \<open>dirs\<close> and \<open>files\<close> that \<open>os.walk\<close> yields for a directory.\<close>

definition dir_names :: "fsnode list \<Rightarrow> pystr list" where
  "dir_names entries = map node_name (filter node_is_dir entries)"

definition file_names :: "fsnode list \<Rightarrow> pystr list" where
  "file_names entries = map node_name (filter (\<lambda>n. \<not> node_is_dir n) entries)"

text \<open>The configuration constants of the source.\<close>

definition DEFAULT_EXCLUDE_DIRS :: "pystr list" where
  "DEFAULT_EXCLUDE_DIRS =
     [py ''.git'', py ''node_modules'', py ''venv'', py ''__pycache__'',
      py ''build'', py ''dist'', py ''.svn'', py ''env'', py ''.idea'',
      py ''.vscode'', py ''target'', py ''out'']"

definition DEFAULT_EXCLUDE_FILES :: "pystr list" where
  "DEFAULT_EXCLUDE_FILES =
     [py ''package-lock.json'', py ''yarn.lock'', py ''*.pyc'', py ''*.pyo'',
      py ''*.exe'', py ''*.dll'', py ''*.so'', py ''*.dylib'', py ''*.o'',
      py ''*.a'', py ''*.class'', py ''*.jar'']"

definition DEFAULT_EXCLUDE_EXTENSIONS :: "pystr list" where
  "DEFAULT_EXCLUDE_EXTENSIONS =
     [py ''.jpg'', py ''.jpeg'', py ''.png'', py ''.gif'', py ''.bmp'',
      py ''.svg'', py ''.ico'', py ''.tif'', py ''.tiff'', py ''.mp4'',
      py ''.avi'', py ''.mov'', py ''.wmv'', py ''.flv'', py ''.mkv'', py ''.mp3'',
      py ''.wav'', py ''.ogg'', py ''.aac'', py ''.flac'', py ''.ttf'',
      py ''.otf'', py ''.woff'', py ''.woff2'', py ''.eot'', py ''.zip'',
      py ''.rar'', py ''.tar'', py ''.gz'', py ''.7z'', py ''.bz2'', py ''.iso'',
      py ''.pdf'', py ''.doc'', py ''.docx'', py ''.xls'', py ''.xlsx'',
      py ''.ppt'', py ''.pptx'', py ''.odt'', py ''.ods'', py ''.odp'', py ''.db'',
      py ''.sqlite'', py ''.sqlite3'', py ''.log'', py ''.tmp'', py ''.bak'',
      py ''.swp'', py ''.bin'', py ''.dat'', py ''.cache'', py ''.img'',
      py ''.dmg'', py ''.pkl'', py ''.joblib'']"

text \<open>The fields of \<open>ProcessWorker\<close> that the walk reads.\<close>

record rules =
  exclude_dirs :: "pystr set"
  exclude_files :: "pystr set"
  exclude_extensions :: "pystr set"
  gitignore_patterns :: "pystr list"

text \<open>
  \<open>os.path.join\<close> of two components, and the relative path of an entry as the walk
  forms it: \<open>os.path.join(rel_root, d) if rel_root else d\<close>. The relative path of the
  directory being visited, \<open>os.path.relpath(root, self.root_dir)\<close> with \<open>.\<close> replaced by
  the empty string, is the relative path under which the walk met that directory.
\<close>

definition path_join :: "pystr \<Rightarrow> pystr \<Rightarrow> pystr" where
  "path_join a b =
     (if startswith b (py ''/'') then b
      else if a = [] \<or> endswith a (py ''/'') then a @ b
      else a @ py ''/'' @ b)"

definition rel_join :: "pystr \<Rightarrow> pystr \<Rightarrow> pystr" where
  "rel_join rel_root name = (if rel_root \<noteq> [] then path_join rel_root name else name)"

text \<open>
  The extension that \<open>os.path.splitext\<close> returns: the text from the last dot of the base
  name on, when some character before that dot is not a dot; otherwise the empty string.
\<close>

definition splitext_ext :: "pystr \<Rightarrow> pystr" where
  "splitext_ext p =
     (let name = basename p;
          suffix = rev (takeWhile (\<lambda>c. c \<noteq> 46) (rev name));
          stem = take (length name - length suffix - 1) name
      in if 46 \<in> set name \<and> list_ex (\<lambda>c. c \<noteq> 46) stem then 46 # suffix else [])"

text \<open>
  \<open>str.lower\<close> on the letters A to Z. Python also maps the letters beyond ASCII, by the
  Unicode tables; the model leaves them as they are.
\<close>

definition lower :: "pystr \<Rightarrow> pystr" where
  "lower s = map (\<lambda>c. if 65 \<le> c \<and> c \<le> 90 then c + 32 else c) s"

text \<open>The state of the walk: the items collected and the paths seen.\<close>

record walk_state =
  collected_items :: "(pystr \<times> bool) list"
  processed_paths :: "pystr set"

text \<open>The loop over the surviving directory names (lines 235 to 240).\<close>

definition add_dir :: "pystr \<Rightarrow> pystr \<Rightarrow> walk_state \<Rightarrow> walk_state" where
  "add_dir rel_root d st =
     (let norm_path = rel_join rel_root d
      in if norm_path \<notin> processed_paths st
         then st\<lparr>collected_items := collected_items st @ [(norm_path, True)],
                 processed_paths := insert norm_path (processed_paths st)\<rparr>
         else st)"

text \<open>The body of the loop over the file names (lines 244 to 270).\<close>

definition add_file :: "rules \<Rightarrow> pystr \<Rightarrow> pystr \<Rightarrow> walk_state \<Rightarrow> walk_state" where
  "add_file R rel_root file st =
     (let norm_path = rel_join rel_root file
      in if norm_path \<in> processed_paths st then st
         else if file \<in> exclude_files R \<or> (\<exists>pattern\<in>exclude_files R. fnmatchcase file pattern)
           then st\<lparr>processed_paths := insert norm_path (processed_paths st)\<rparr>
         else if lower (splitext_ext file) \<in> exclude_extensions R
           then st\<lparr>processed_paths := insert norm_path (processed_paths st)\<rparr>
         else if is_excluded_by_gitignore (gitignore_patterns R) norm_path False
           then st\<lparr>processed_paths := insert norm_path (processed_paths st)\<rparr>
         else st\<lparr>collected_items := collected_items st @ [(norm_path, False)],
                 processed_paths := insert norm_path (processed_paths st)\<rparr>)"

text \<open>
  The directory names that stay in \<open>dirs\<close>: first the names in \<open>exclude_dirs\<close> are
  dropped, then the names whose relative path the ignore patterns exclude.
\<close>

definition final_dirs :: "rules \<Rightarrow> pystr \<Rightarrow> fsnode list \<Rightarrow> pystr list" where
  "final_dirs R rel_root entries =
     filter (\<lambda>d. \<not> is_excluded_by_gitignore (gitignore_patterns R) (rel_join rel_root d) True)
       (filter (\<lambda>d. d \<notin> exclude_dirs R) (dir_names entries))"

text \<open>
  The loop over \<open>os.walk(self.root_dir, topdown=True)\<close>: the visit of a directory handles
  its directory names and its file names, and then \<open>os.walk\<close> goes into the directories
  whose names are left in \<open>dirs\<close>, in their order.
\<close>

fun walk :: "rules \<Rightarrow> pystr \<Rightarrow> fsnode list \<Rightarrow> walk_state \<Rightarrow> walk_state" where
  "walk R rel_root entries st =
     (let dirs = final_dirs R rel_root entries;
          st1 = fold (add_dir rel_root) dirs st;
          st2 = fold (add_file R rel_root) (file_names entries) st1
      in fold (\<lambda>node s.
                 case node of
                   File f \<Rightarrow> s
                 | Dir d sub \<Rightarrow> if d \<in> set dirs then walk R (rel_join rel_root d) sub s else s)
           entries st2)"

text \<open>The collected tree: the items of the walk from the root, sorted.\<close>

definition collect :: "rules \<Rightarrow> fsnode list \<Rightarrow> (pystr \<times> bool) list" where
  "collect R root_entries =
     sort (collected_items
             (walk R [] root_entries \<lparr>collected_items = [], processed_paths = {}\<rparr>))"

definition default_rules :: rules where
  "default_rules =
     \<lparr>exclude_dirs = set DEFAULT_EXCLUDE_DIRS, exclude_files = set DEFAULT_EXCLUDE_FILES,
      exclude_extensions = set DEFAULT_EXCLUDE_EXTENSIONS, gitignore_patterns = []\<rparr>"

text \<open>
  Well-formed trees: a name that \<open>os.scandir\<close> can return is not empty and has no \<open>/\<close>.
\<close>

definition valid_name :: "pystr \<Rightarrow> bool" where
  "valid_name n = (n \<noteq> [] \<and> 47 \<notin> set n)"

fun wf_node :: "fsnode \<Rightarrow> bool" where
  "wf_node (File f) = valid_name f"
| "wf_node (Dir d sub) = (valid_name d \<and> list_all wf_node sub)"

definition wf_tree :: "fsnode list \<Rightarrow> bool" where
  "wf_tree entries = list_all wf_node entries"

text \<open>\<open>'/'.join(cs)\<close>: the relative path with the components \<open>cs\<close>.\<close>

fun join_path :: "pystr list \<Rightarrow> pystr" where
  "join_path [] = []"
| "join_path [c] = c"
| "join_path (c # d # cs) = c @ py ''/'' @ join_path (d # cs)"

text \<open>
  The relative paths of the directories that the walk can enter: the root, and below an
  entered directory every directory whose name is not in \<open>exclude_dirs\<close> and whose path
  the ignore patterns do not exclude.
\<close>

inductive kept_dir :: "rules \<Rightarrow> pystr \<Rightarrow> bool" for R :: rules where
  kept_root: "kept_dir R []"
| kept_sub: "kept_dir R r \<Longrightarrow> valid_name d \<Longrightarrow> d \<notin> exclude_dirs R \<Longrightarrow>
     \<not> is_excluded_by_gitignore (gitignore_patterns R) (rel_join r d) True \<Longrightarrow>
     kept_dir R (rel_join r d)"

text \<open>An item that the walk can collect: an entered directory other than the root, or a
  file in an entered directory.\<close>

definition item_ok :: "rules \<Rightarrow> pystr \<times> bool \<Rightarrow> bool" where
  "item_ok R x =
     (if snd x then fst x \<noteq> [] \<and> kept_dir R (fst x)
      else (\<exists>r f. kept_dir R r \<and> valid_name f \<and> fst x = rel_join r f))"

definition items_ok :: "rules \<Rightarrow> walk_state \<Rightarrow> bool" where
  "items_ok R st = (\<forall>x\<in>set (collected_items st). item_ok R x)"

text \<open>
  The example trees of the specification. The root with the files \<open>a/x.py\<close>,
  \<open>a/b/y.log\<close> and \<open>node_modules/z.js\<close>, in each of the orders in which the entries of
  the root and of \<open>a\<close> can be listed; and a root with the files \<open>build/tmp.o\<close> and
  \<open>build/keep.txt\<close>, with rules that have the two ignore patterns and no other exclusion.
\<close>

definition sample_root :: "bool \<Rightarrow> bool \<Rightarrow> fsnode list" where
  "sample_root swap_root swap_a =
     (let b = Dir (py ''b'') [File (py ''y.log'')];
          a = Dir (py ''a'') (if swap_a then [b, File (py ''x.py'')] else [File (py ''x.py''), b]);
          nm = Dir (py ''node_modules'') [File (py ''z.js'')]
      in if swap_root then [nm, a] else [a, nm])"

definition build_root :: "fsnode list" where
  "build_root = [Dir (py ''build'') [File (py ''tmp.o''), File (py ''keep.txt'')]]"

definition build_rules :: rules where
  "build_rules =
     \<lparr>exclude_dirs = {}, exclude_files = {}, exclude_extensions = {},
      gitignore_patterns = [py ''build/'', py ''!build/keep.txt'']\<rparr>"

section \<open>The structure summary and the file records\<close>

text \<open>
  The markers of the structure summary, as the string literals of line 293 stand in the
  source file: the code points U+00F0, U+0178, U+201C and a space for a directory, and
  U+00F0, U+0178, U+201C, U+201E and a space for a file.
\<close>

definition dir_icon :: pystr where
  "dir_icon = [240, 376, 8220, 32]"

definition file_icon :: pystr where
  "file_icon = [240, 376, 8220, 8222, 32]"

text \<open>\<open>s.count(c)\<close> for one character, and \<open>'\n'.join(lines)\<close>.\<close>

definition count_char :: "nat \<Rightarrow> pystr \<Rightarrow> nat" where
  "count_char c s = length (filter (\<lambda>x. x = c) s)"

fun join_lines :: "pystr list \<Rightarrow> pystr" where
  "join_lines [] = []"
| "join_lines [l] = l"
| "join_lines (l # m # ls) = l @ py ''\<newline>'' @ join_lines (m # ls)"

text \<open>
  What reading a file gives: its text read as UTF-8; or, when that fails to decode, its
  text read as Latin-1; or the message of the exception when reading fails.
\<close>

datatype read_result = ReadUtf8 pystr | ReadLatin1 pystr | ReadError pystr

record out_state =
  structure_lines :: "pystr list"
  file_contents :: "pystr list"
  errors :: "pystr list"

text \<open>
  The body of the loop over the collected items (lines 282 to 324). \<open>read\<close> stands
  for the file system: it gives the result of reading the file with a relative path.
  The counters of the loop only feed the progress messages and are left out.
\<close>

definition process_item ::
  "bool \<Rightarrow> bool \<Rightarrow> pystr \<Rightarrow> (pystr \<Rightarrow> read_result) \<Rightarrow> pystr \<times> bool \<Rightarrow> out_state \<Rightarrow> out_state" where
  "process_item include_structure structure_only root_dir read item st =
     (let rel_path = fst item; is_dir = snd item;
          st1 = (if include_structure \<or> structure_only then
                   (let indent0 = count_char 47 rel_path;
                        indent = (if indent0 = 0 \<and> 47 \<in> set rel_path then indent0
                                  else if rel_path \<noteq> [] \<and> 47 \<notin> set rel_path then 0
                                  else count_char 47 rel_path);
                        prefix = concat (replicate indent (py ''  ''))
                                   @ (if is_dir then dir_icon else file_icon);
                        base_name = (if rel_path \<noteq> [] then basename rel_path
                                     else basename root_dir)
                    in st\<lparr>structure_lines := structure_lines st @ [prefix @ base_name]\<rparr>)
                 else st)
      in if \<not> is_dir \<and> \<not> structure_only then
           (case read rel_path of
              ReadUtf8 content \<Rightarrow>
                st1\<lparr>file_contents := file_contents st1 @
                  [py ''>>>File: '' @ rel_path @ py ''\<newline>\<newline>'' @ content @ py ''\<newline>\<newline>''
                     @ replicate 40 61 @ py ''\<newline>'']\<rparr>
            | ReadLatin1 text \<Rightarrow>
                (let content = py ''[Warning: File read as latin-1, may not be correct]\<newline>'' @ text
                 in st1\<lparr>file_contents := file_contents st1 @
                      [py ''>>>File: '' @ rel_path @ py ''\<newline>\<newline>'' @ content @ py ''\<newline>\<newline>''
                         @ replicate 40 61 @ py ''\<newline>'']\<rparr>)
            | ReadError e \<Rightarrow>
                st1\<lparr>file_contents := file_contents st1 @
                      [py ''>>>File: '' @ rel_path @ py ''\<newline>\<newline>[Error reading file: '' @ e
                         @ py '']\<newline>\<newline>'' @ replicate 40 61 @ py ''\<newline>''],
                    errors := errors st1 @ [py ''Error reading file '' @ rel_path @ py '': '' @ e]\<rparr>)
         else st1)"

text \<open>
  The result that \<open>run\<close> emits for the collected items: the structure summary, the
  combined content and the list of errors.
\<close>

definition run_output ::
  "bool \<Rightarrow> bool \<Rightarrow> pystr \<Rightarrow> (pystr \<Rightarrow> read_result) \<Rightarrow> (pystr \<times> bool) list
     \<Rightarrow> pystr \<times> pystr \<times> pystr list" where
  "run_output include_structure structure_only root_dir read items =
     (let st = fold (process_item include_structure structure_only root_dir read) items
                 \<lparr>structure_lines = [], file_contents = [], errors = []\<rparr>;
          structure_summary =
            (if include_structure \<or> structure_only
             then py ''Directory Structure:\<newline>====================\<newline>''
                    @ join_lines (structure_lines st) @ py ''\<newline>\<newline>''
             else []);
          combined_content = (if \<not> structure_only then concat (file_contents st) else [])
      in (structure_summary, combined_content, errors st))"

text \<open>
  The format of the specification: the line of an entry, the content of a file record
  and the file record.
\<close>

definition entry_line :: "pystr \<times> bool \<Rightarrow> pystr" where
  "entry_line item =
     replicate (2 * count_char 47 (fst item)) 32
       @ (if snd item then dir_icon else file_icon) @ basename (fst item)"

fun record_content :: "read_result \<Rightarrow> pystr" where
  "record_content (ReadUtf8 content) = content"
| "record_content (ReadLatin1 text) =
     py ''[Warning: File read as latin-1, may not be correct]\<newline>'' @ text"
| "record_content (ReadError e) = py ''[Error reading file: '' @ e @ py '']''"

definition file_record :: "pystr \<Rightarrow> pystr \<Rightarrow> pystr" where
  "file_record relative_path content =
     py ''>>>File: '' @ relative_path @ py ''\<newline>\<newline>'' @ content @ py ''\<newline>\<newline>''
       @ replicate 40 61 @ py ''\<newline>''"

section \<open>Properties of the chunk splitter\<close>

lemma concat_splitlines_from: "concat (splitlines_from cur s) = cur @ s"
proof (induction cur s rule: splitlines_from.induct)
  case (1 cur) then show ?case by simp
next
  case (2 cur c cs)
  show ?case
  proof (cases "c = 13 \<and> cs \<noteq> [] \<and> hd cs = 10")
    case True
    then obtain cs' where "cs = 10 # cs'" by (cases cs) auto
    with True 2 show ?thesis by simp
  next
    case False
    with 2 show ?thesis by (cases "is_linebreak c") auto
  qed
qed

lemma seg_append: "a \<le> c \<Longrightarrow> c \<le> b \<Longrightarrow> seg xs a c @ seg xs c b = seg xs a b"
proof -
  assume h: "a \<le> c" "c \<le> b"
  have "take ((c - a) + (b - c)) (drop a xs) = take (c - a) (drop a xs) @ take (b - c) (drop (c - a) (drop a xs))"
    by (rule take_add)
  moreover have "(c - a) + (b - c) = b - a" using h by simp
  moreover have "drop (c - a) (drop a xs) = drop c xs" using h by simp
  ultimately show ?thesis by (simp add: seg_def)
qed

lemma concat_segs:
  "sorted (a # cs) \<Longrightarrow> \<forall>c\<in>set (a # cs). c \<le> length xs \<Longrightarrow> concat (segs xs a cs) = seg xs a (length xs)"
proof (induction cs arbitrary: a)
  case Nil then show ?case by simp
next
  case (Cons c cs)
  have "concat (segs xs c cs) = seg xs c (length xs)"
    using Cons.prems by (intro Cons.IH) auto
  moreover have "a \<le> c" "c \<le> length xs" using Cons.prems by auto
  ultimately show ?case by (simp add: seg_append)
qed

lemma length_segs: "length (segs xs a cs) = Suc (length cs)"
  by (induction cs arbitrary: a) auto

lemma nth_segs:
  "i \<le> length cs \<Longrightarrow> segs xs a cs ! i = seg xs ((a # cs) ! i) (if i < length cs then cs ! i else length xs)"
proof (induction cs arbitrary: a i)
  case Nil then show ?case by simp
next
  case (Cons c cs)
  show ?case
  proof (cases i)
    case 0 then show ?thesis by simp
  next
    case (Suc j)
    with Cons.prems have "j \<le> length cs" by simp
    from Cons.IH[OF this, of c] Suc show ?thesis by simp
  qed
qed

lemma marker_indices_alt:
  "marker_indices lines = (- 1) # map int (marker_positions lines)"
  by (simp add: marker_indices_def marker_positions_def map_concat comp_def case_prod_unfold if_distrib cong: if_cong)

lemma positions_bounds:
  "m \<in> set [i. (i, line) \<leftarrow> enumerate n xs, P line] \<Longrightarrow> n \<le> m \<and> m < n + length xs"
  by (auto simp: in_set_enumerate_eq)

lemma positions_sorted:
  "sorted_wrt (<) [i. (i, line) \<leftarrow> enumerate n xs, P line]"
proof (induction xs arbitrary: n)
  case Nil then show ?case by simp
next
  case (Cons x xs)
  from Cons[of "Suc n"] show ?case by (auto simp: in_set_enumerate_eq)
qed

lemma marker_positions_lt: "m \<in> set (marker_positions lines) \<Longrightarrow> m < length lines"
  unfolding marker_positions_def using positions_bounds[where m=m and n=0 and xs=lines] by simp

lemma marker_positions_sorted: "sorted_wrt (<) (marker_positions lines)"
  unfolding marker_positions_def by (rule positions_sorted)

lemma py_slice_nat:
  "a \<le> length xs \<Longrightarrow> b \<le> length xs \<Longrightarrow> py_slice xs (int a) (int b) = seg xs a b"
  by (simp add: py_slice_def slice_index_def seg_def Let_def min_absorb1)

lemma Cons_seg: "a < b \<Longrightarrow> a < length xs \<Longrightarrow> xs ! a # seg xs (Suc a) b = seg xs a b"
proof -
  assume h: "a < b" "a < length xs"
  then obtain k where k: "b - a = Suc k" by (metis Suc_diff_Suc diff_zero zero_less_diff less_imp_Suc_add diff_add_inverse)
  then have "b - Suc a = k" by simp
  with k h show ?thesis by (simp add: seg_def Cons_nth_drop_Suc[symmetric])
qed

lemma blocks_segs: "blocks lines = segs lines 0 (marker_positions lines)"
proof (rule nth_equalityI)
  show "length (blocks lines) = length (segs lines 0 (marker_positions lines))"
    by (simp add: blocks_def marker_indices_alt length_segs Let_def del: upt_Suc)
next
  fix i assume "i < length (blocks lines)"
  define ms where "ms = marker_positions lines"
  define n where "n = length lines"
  have mi: "marker_indices lines = (- 1) # map int ms" by (simp add: marker_indices_alt ms_def)
  from \<open>i < length (blocks lines)\<close> have i: "i \<le> length ms"
    by (simp add: blocks_def mi Let_def del: upt_Suc)
  have lt: "\<And>j. j < length ms \<Longrightarrow> ms ! j < n"
    using marker_positions_lt[of _ lines] by (simp add: ms_def n_def)
  have srt: "sorted_wrt (<) ms" by (simp add: ms_def marker_positions_sorted)
  define e where "e = (if i < length ms then ms ! i else n)"
  have e_le: "e \<le> n" using lt[of i] by (auto simp: e_def)
  have bl: "blocks lines ! i = block_lines_at lines ((- 1) # map int ms) i"
    using i by (simp add: blocks_def mi Let_def del: upt_Suc)
  have "block_lines_at lines ((- 1) # map int ms) i = seg lines ((0 # ms) ! i) e"
  proof (cases i)
    case 0
    have "py_slice lines (int 0) (int e) = seg lines 0 e"
      using e_le by (intro py_slice_nat) (simp_all add: n_def)
    with 0 show ?thesis
      by (cases ms) (simp_all add: block_lines_at_def e_def Let_def n_def)
  next
    case (Suc j)
    with i have j: "j < length ms" by simp
    have mj: "ms ! j < n" using lt[OF j] .
    have "ms ! j < e"
    proof (cases "i < length ms")
      case True
      with srt Suc have "ms ! j < ms ! i" by (simp add: sorted_wrt_nth_less)
      with True show ?thesis by (simp add: e_def)
    next
      case False with mj show ?thesis by (simp add: e_def)
    qed
    have sl: "py_slice lines (int (Suc (ms ! j))) (int e) = seg lines (Suc (ms ! j)) e"
      using e_le mj by (intro py_slice_nat) (simp_all add: n_def)
    have en: "(if i + 1 < length ((- 1) # map int ms) then ((- 1) # map int ms) ! (i + 1) else int (length lines)) = int e"
      using Suc j by (auto simp: e_def n_def)
    have st: "((- 1) # map int ms) ! i = int (ms ! j)" using Suc j by simp
    have "block_lines_at lines ((- 1) # map int ms) i
          = lines ! nat (int (ms ! j)) # py_slice lines (int (ms ! j) + 1) (int e)"
      by (simp only: block_lines_at_def Let_def en st) (use Suc in simp)
    also have "\<dots> = lines ! (ms ! j) # seg lines (Suc (ms ! j)) e"
      using sl by (simp add: add.commute)
    also have "\<dots> = seg lines (ms ! j) e"
      using \<open>ms ! j < e\<close> mj by (intro Cons_seg) (simp_all add: n_def)
    finally show ?thesis using Suc by simp
  qed
  also have "\<dots> = segs lines 0 ms ! i"
    using nth_segs[OF i, of lines 0] by (simp add: e_def n_def)
  finally show "blocks lines ! i = segs lines 0 (marker_positions lines) ! i"
    using bl by (simp add: ms_def)
qed

lemma concat_blocks: "concat (blocks lines) = lines"
proof -
  have "sorted (0 # marker_positions lines)"
    using marker_positions_sorted[of lines] by (simp add: sorted_wrt_mono_rel[of _ "(<)" "(\<le>)"] strict_sorted_imp_sorted)
  moreover have "\<forall>c\<in>set (0 # marker_positions lines). c \<le> length lines"
    using marker_positions_lt[of _ lines] by (auto intro: less_imp_le)
  ultimately have "concat (segs lines 0 (marker_positions lines)) = seg lines 0 (length lines)"
    by (rule concat_segs)
  then show ?thesis by (simp add: blocks_segs seg_def)
qed

lemma concat_eq_Nil_nonempty: "\<forall>b\<in>set cg. b \<noteq> [] \<Longrightarrow> (concat cg = []) = (cg = [])"
  by (cases cg) auto

lemma split_step_inv:
  assumes "split_inv m bs st gs cg"
  shows "\<exists>gs' cg'. split_inv m (bs @ [b]) (split_step m b st) gs' cg'"
proof -
  from assms have
    p: "parts st = map (concat \<circ> concat) gs" and c: "current_part_lines st = concat cg"
    and f: "concat gs @ cg = filter (\<lambda>b. b \<noteq> []) bs" and ne: "\<forall>b\<in>set cg. b \<noteq> []"
    and n: "current_line_count st = int (length (concat cg))"
    and le: "cg \<noteq> [] \<longrightarrow> int (length (concat cg)) \<le> m" and ok: "\<forall>g\<in>set gs. seg_ok m g"
    by (simp_all add: split_inv_def)
  have cnil: "(concat cg = []) = (cg = [])" using ne by (rule concat_eq_Nil_nonempty)
  have okc: "cg \<noteq> [] \<Longrightarrow> seg_ok m cg" using le by (simp add: seg_ok_def)
  consider (empty) "b = []" | (big) "b \<noteq> []" "m < int (length b)"
    | (flush) "b \<noteq> []" "\<not> m < int (length b)" "cg \<noteq> []" "m < int (length (concat cg)) + int (length b)"
    | (app) "b \<noteq> []" "\<not> m < int (length b)" "cg = [] \<or> \<not> m < int (length (concat cg)) + int (length b)"
    by blast
  then show ?thesis
  proof cases
    case empty
    with assms have "split_inv m (bs @ [b]) (split_step m b st) gs cg"
      by (simp add: split_inv_def split_step_def)
    then show ?thesis by blast
  next
    case big
    show ?thesis
    proof (cases "cg = []")
      case True
      with big p c f n ok have "split_inv m (bs @ [b]) (split_step m b st) (gs @ [[b]]) []"
        by (simp add: split_inv_def split_step_def Let_def seg_ok_def)
      then show ?thesis by blast
    next
      case False
      with big p c f n ok okc cnil have "split_inv m (bs @ [b]) (split_step m b st) (gs @ [cg, [b]]) []"
        by (simp add: split_inv_def split_step_def Let_def seg_ok_def finalize_part_def)
      then show ?thesis by blast
    qed
  next
    case flush
    have pos: "0 < int (length (concat cg))" using flush(3) cnil by simp
    from flush pos p c f n ok okc cnil have "split_inv m (bs @ [b]) (split_step m b st) (gs @ [cg]) [b]"
      by (simp add: split_inv_def split_step_def Let_def finalize_part_def)
    then show ?thesis by blast
  next
    case app
    have nf: "\<not> (current_line_count st > 0 \<and> current_line_count st + int (length b) > m)"
      using app(3) n cnil by auto
    have "int (length (concat (cg @ [b]))) \<le> m"
    proof (cases "cg = []")
      case True with app(2) show ?thesis by simp
    next
      case False with app(3) show ?thesis by simp
    qed
    with app nf p c f n ok ne have "split_inv m (bs @ [b]) (split_step m b st) gs (cg @ [b])"
      by (simp add: split_inv_def split_step_def Let_def)
    then show ?thesis by blast
  qed
qed

lemma fold_split_step_inv:
  "\<exists>gs cg. split_inv m bs (fold (split_step m) bs \<lparr>parts = [], current_part_lines = [], current_line_count = 0\<rparr>) gs cg"
proof (induction bs rule: rev_induct)
  case Nil
  have "split_inv m [] \<lparr>parts = [], current_part_lines = [], current_line_count = 0\<rparr> [] []"
    by (simp add: split_inv_def)
  then show ?case by auto
next
  case (snoc b bs)
  then obtain gs cg where "split_inv m bs (fold (split_step m) bs \<lparr>parts = [], current_part_lines = [], current_line_count = 0\<rparr>) gs cg"
    by blast
  from split_step_inv[OF this, of b] show ?case by simp
qed

lemma split_loop_blocks:
  "split_loop m lines = fold (split_step m) (blocks lines) \<lparr>parts = [], current_part_lines = [], current_line_count = 0\<rparr>"
  by (simp add: split_loop_def blocks_def Let_def fold_map comp_def del: upt_Suc)

lemma split_lines_groups:
  "\<exists>groups. (let st = split_loop m lines in
       if current_part_lines st \<noteq> [] then parts st @ [concat (current_part_lines st)] else parts st)
         = map (concat \<circ> concat) groups
     \<and> concat groups = filter (\<lambda>b. b \<noteq> []) (blocks lines)
     \<and> (\<forall>g\<in>set groups. seg_ok m g)"
proof -
  obtain gs cg where inv: "split_inv m (blocks lines) (split_loop m lines) gs cg"
    using fold_split_step_inv[of m "blocks lines"] by (auto simp: split_loop_blocks)
  then have cnil: "(concat cg = []) = (cg = [])"
    by (intro concat_eq_Nil_nonempty) (simp add: split_inv_def)
  show ?thesis
  proof (cases "cg = []")
    case True
    with inv cnil show ?thesis
      by (intro exI[of _ gs]) (simp add: split_inv_def Let_def)
  next
    case False
    with inv cnil show ?thesis
      by (intro exI[of _ "gs @ [cg]"]) (simp add: split_inv_def Let_def seg_ok_def)
  qed
qed

lemma splitlines_from_no_break:
  "no_break b \<Longrightarrow> splitlines_from cur (b @ r) = splitlines_from (cur @ b) r"
  by (induction b arbitrary: cur) (auto simp: no_break_def is_linebreak_def)

lemma splitlines_from_terminated:
  assumes "terminated l" "\<not> (last l = 13 \<and> r \<noteq> [] \<and> hd r = 10)"
  shows "splitlines_from cur (l @ r) = (cur @ l) # splitlines_from [] r"
proof -
  from assms(1) obtain body where nb: "no_break body"
    and l: "l = body @ [13, 10] \<or> (\<exists>c. is_linebreak c \<and> l = body @ [c])"
    by (auto simp: terminated_def)
  from l show ?thesis
  proof
    assume "l = body @ [13, 10]"
    then show ?thesis using splitlines_from_no_break[OF nb, of cur "[13, 10] @ r"] by simp
  next
    assume "\<exists>c. is_linebreak c \<and> l = body @ [c]"
    then obtain c where c: "is_linebreak c" "l = body @ [c]" by blast
    with assms(2) have "\<not> (c = 13 \<and> r \<noteq> [] \<and> hd r = 10)" by simp
    with c show ?thesis using splitlines_from_no_break[OF nb, of cur "[c] @ r"] by auto
  qed
qed

lemma lines_ok_splitlines_from: "no_break cur \<Longrightarrow> lines_ok (splitlines_from cur s)"
proof (induction cur s rule: splitlines_from.induct)
  case (1 cur)
  then show ?case by simp
next
  case (2 cur c cs)
  have nb0: "no_break []" by (simp add: no_break_def)
  show ?case
  proof (cases "c = 13 \<and> cs \<noteq> [] \<and> hd cs = 10")
    case True
    have "terminated (cur @ [13, 10])" using "2.prems" by (auto simp: terminated_def)
    with True "2.IH"(1)[OF True nb0] show ?thesis by simp
  next
    case False
    show ?thesis
    proof (cases "is_linebreak c")
      case True
      have "terminated (cur @ [c])" using "2.prems" True by (auto simp: terminated_def)
      with True False "2.IH"(2)[OF False True nb0] show ?thesis
        by (auto simp: concat_splitlines_from)
    next
      case nl: False
      have "no_break (cur @ [c])" using "2.prems" nl by (simp add: no_break_def)
      moreover have "c \<noteq> 13" using nl by (auto simp: is_linebreak_def)
      ultimately show ?thesis using nl "2.IH"(3)[OF False nl] by simp
    qed
  qed
qed

lemma splitlines_concat: "lines_ok ls \<Longrightarrow> splitlines_from [] (concat ls) = ls"
proof (induction ls)
  case Nil then show ?case by simp
next
  case (Cons l ls)
  then have ih: "splitlines_from [] (concat ls) = ls" by simp
  from Cons.prems consider
    (t) "terminated l" "\<not> (last l = 13 \<and> concat ls \<noteq> [] \<and> hd (concat ls) = 10)"
    | (u) "ls = []" "l \<noteq> []" "no_break l" by auto
  then show ?case
  proof cases
    case t
    from splitlines_from_terminated[OF t, of "[]"] ih show ?thesis by simp
  next
    case u
    from splitlines_from_no_break[OF u(3), of "[]" "[]"] u show ?thesis by simp
  qed
qed

lemma lines_ok_append: "lines_ok (xs @ ys) \<Longrightarrow> lines_ok xs \<and> lines_ok ys"
proof (induction xs)
  case Nil then show ?case by simp
next
  case (Cons l xs)
  then have ih: "lines_ok xs" "lines_ok ys" by simp_all
  define r where "r = concat xs"
  define r' where "r' = concat (xs @ ys)"
  from Cons.prems have A: "(terminated l \<and> \<not> (last l = 13 \<and> r' \<noteq> [] \<and> hd r' = 10))
       \<or> (xs @ ys = [] \<and> l \<noteq> [] \<and> no_break l)"
    by (simp add: r'_def)
  have B: "r \<noteq> [] \<Longrightarrow> r' \<noteq> [] \<and> hd r' = hd r" by (simp add: r_def r'_def)
  have "(terminated l \<and> \<not> (last l = 13 \<and> r \<noteq> [] \<and> hd r = 10))
       \<or> (xs = [] \<and> l \<noteq> [] \<and> no_break l)"
    using A B by (cases "r = []") auto
  with ih show ?case by (simp add: r_def)
qed

lemma lines_ok_splitlines: "lines_ok (splitlines s)"
  unfolding splitlines_def by (rule lines_ok_splitlines_from) (simp add: no_break_def)

lemma concat_filter_nonempty: "concat (filter (\<lambda>b. b \<noteq> []) bs) = concat bs"
  by (induction bs) auto

lemma group_splitlines:
  assumes "concat groups = filter (\<lambda>b. b \<noteq> []) (blocks (splitlines x))" "g \<in> set groups"
  shows "splitlines (concat (concat g)) = concat g"
proof -
  from assms(2) obtain A B where "groups = A @ g # B" by (auto simp: in_set_conv_decomp)
  then have "concat (concat groups) = concat (concat A) @ concat g @ concat (concat B)" by simp
  moreover have "concat (concat groups) = splitlines x"
    using assms(1) by (simp add: concat_filter_nonempty concat_blocks)
  ultimately have "lines_ok (concat (concat A) @ concat g @ concat (concat B))"
    using lines_ok_splitlines[of x] by simp
  then have "lines_ok (concat g)" using lines_ok_append by blast
  then show ?thesis unfolding splitlines_def by (rule splitlines_concat)
qed

lemma split_content_smart_groups:
  "\<exists>groups. split_content_smart x m = map (concat \<circ> concat) groups
     \<and> concat groups = filter (\<lambda>b. b \<noteq> []) (blocks (splitlines x))
     \<and> (\<forall>g\<in>set groups. seg_ok m g)"
proof (cases "splitlines x = []")
  case True
  have "blocks [] = [[]]"
    by (simp add: blocks_def marker_indices_def block_lines_at_def py_slice_def)
  with True have "split_content_smart x m = map (concat \<circ> concat) []
     \<and> concat [] = filter (\<lambda>b. b \<noteq> []) (blocks (splitlines x))
     \<and> (\<forall>g\<in>set ([] :: pystr list list list). seg_ok m g)"
    by (simp add: split_content_smart_def)
  then show ?thesis by blast
next
  case False
  then have "x \<noteq> []" by (auto simp: splitlines_def)
  with False have "split_content_smart x m =
      (let st = split_loop m (splitlines x) in
       if current_part_lines st \<noteq> [] then parts st @ [concat (current_part_lines st)] else parts st)"
    by (simp add: split_content_smart_def Let_def)
  with split_lines_groups[of m "splitlines x"] show ?thesis by simp
qed

text \<open>
  C1. The splitter is lossless: for every text and every budget (whether or not it is at
  least 1), the segments it returns, concatenated in order, are the text; and for the
  empty text it returns no segment.
\<close>

theorem split_content_smart_lossless:
  "concat (split_content_smart x max_lines) = x \<and> split_content_smart [] max_lines = []"
proof -
  obtain groups where g: "split_content_smart x max_lines = map (concat \<circ> concat) groups"
    "concat groups = filter (\<lambda>b. b \<noteq> []) (blocks (splitlines x))"
    using split_content_smart_groups[of x max_lines] by blast
  have "concat (map (concat \<circ> concat) groups) = concat (concat (concat groups))"
    by (induction groups) simp_all
  also have "\<dots> = concat (splitlines x)"
    using g(2) by (simp add: concat_filter_nonempty concat_blocks)
  also have "\<dots> = x" by (simp add: splitlines_def concat_splitlines_from)
  finally show ?thesis using g(1) by (simp add: split_content_smart_def)
qed

theorem split_content_smart_lossless_witness:
  "concat (split_content_smart (py ''a\<newline>>>>File: f\<newline>b\<newline>c'') 2) = py ''a\<newline>>>>File: f\<newline>b\<newline>c''
   \<and> split_content_smart [] 2 = []"
  using split_content_smart_lossless [of "py ''a\<newline>>>>File: f\<newline>b\<newline>c''" 2] by simp

text \<open>
  C2. For every text and every budget, the segments returned are the non-empty blocks of
  the text, grouped in order without dividing any block: every segment is the
  concatenation of one group of whole blocks, its lines (what \<open>splitlines\<close> gives for the
  segment) are exactly the lines of these blocks, and either the segment has at most
  \<open>max_lines\<close> lines or it is a single block that alone has more than \<open>max_lines\<close> lines.
\<close>

theorem split_content_smart_whole_blocks:
  "\<exists>groups. split_content_smart x max_lines = map (concat \<circ> concat) groups
     \<and> concat groups = filter (\<lambda>b. b \<noteq> []) (blocks (splitlines x))
     \<and> (\<forall>g\<in>set groups. g \<noteq> [] \<and> splitlines (concat (concat g)) = concat g
           \<and> (int (length (splitlines (concat (concat g)))) \<le> max_lines
               \<or> (\<exists>b. g = [b] \<and> max_lines < int (length b))))"
proof -
  obtain groups where g: "split_content_smart x max_lines = map (concat \<circ> concat) groups"
    "concat groups = filter (\<lambda>b. b \<noteq> []) (blocks (splitlines x))"
    "\<forall>g\<in>set groups. seg_ok max_lines g"
    using split_content_smart_groups[of x max_lines] by blast
  have "\<forall>g\<in>set groups. g \<noteq> [] \<and> splitlines (concat (concat g)) = concat g
           \<and> (int (length (splitlines (concat (concat g)))) \<le> max_lines
               \<or> (\<exists>b. g = [b] \<and> max_lines < int (length b)))"
  proof
    fix h assume h: "h \<in> set groups"
    with g(3) have "seg_ok max_lines h" by blast
    moreover have "splitlines (concat (concat h)) = concat h"
      using g(2) h by (rule group_splitlines)
    ultimately show "h \<noteq> [] \<and> splitlines (concat (concat h)) = concat h
           \<and> (int (length (splitlines (concat (concat h)))) \<le> max_lines
               \<or> (\<exists>b. h = [b] \<and> max_lines < int (length b)))"
      by (simp add: seg_ok_def)
  qed
  with g(1,2) show ?thesis by blast
qed

theorem split_content_smart_whole_blocks_witness:
  "split_content_smart (py ''a\<newline>>>>File: f\<newline>b\<newline>c\<newline>>>>File: g\<newline>d'') 2
     = [py ''a\<newline>'', py ''>>>File: f\<newline>b\<newline>c\<newline>'', py ''>>>File: g\<newline>d'']
   \<and> (\<exists>groups. split_content_smart (py ''a\<newline>>>>File: f\<newline>b\<newline>c\<newline>>>>File: g\<newline>d'') 2
          = map (concat \<circ> concat) groups
     \<and> concat groups = filter (\<lambda>b. b \<noteq> [])
          (blocks (splitlines (py ''a\<newline>>>>File: f\<newline>b\<newline>c\<newline>>>>File: g\<newline>d'')))
     \<and> (\<forall>g\<in>set groups. g \<noteq> [] \<and> splitlines (concat (concat g)) = concat g
           \<and> (int (length (splitlines (concat (concat g)))) \<le> 2
               \<or> (\<exists>b. g = [b] \<and> 2 < int (length b)))))"
proof
  show "split_content_smart (py ''a\<newline>>>>File: f\<newline>b\<newline>c\<newline>>>>File: g\<newline>d'') 2
     = [py ''a\<newline>'', py ''>>>File: f\<newline>b\<newline>c\<newline>'', py ''>>>File: g\<newline>d'']"
    by (simp add: py_def split_content_smart_def splitlines_def is_linebreak_def split_loop_def
         marker_indices_def file_marker_def startswith_def block_lines_at_def py_slice_def
         slice_index_def split_step_def finalize_part_def Let_def enumerate_eq_zip upt_rec)
qed (rule split_content_smart_whole_blocks)

section \<open>Properties of the ignore-pattern matcher\<close>

lemma pattern_core_body_Nil: "pattern_body p = [] \<Longrightarrow> pattern_core p = []"
  by (simp add: pattern_core_def rstrip_char_def)

lemma is_excluded_step:
  "is_excluded_by_gitignore (p # ps) path d =
     (if pattern_matches p path d then \<not> is_negation p else is_excluded_by_gitignore ps path d)"
  using pattern_core_body_Nil[of p]
  by (auto simp: pattern_matches_def Let_def)

lemma is_excluded_no_match:
  "\<forall>p\<in>set ps. \<not> pattern_matches p path d \<Longrightarrow> is_excluded_by_gitignore ps path d = False"
  by (induction ps) (simp_all add: is_excluded_step del: is_excluded_by_gitignore.simps(2))

lemma is_excluded_skip_prefix:
  "\<forall>p\<in>set pre. \<not> pattern_matches p path d \<Longrightarrow>
   is_excluded_by_gitignore (pre @ ps) path d = is_excluded_by_gitignore ps path d"
  by (induction pre) (simp_all add: is_excluded_step del: is_excluded_by_gitignore.simps(2))

text \<open>
  C3. The ignore-exclusion function is decided by the first pattern, in the order of the
  list, that matches the path: the result is \<open>True\<close> when that pattern is not negated and
  \<open>False\<close> when it is negated, whatever patterns follow it; and the result is \<open>False\<close> when
  no pattern matches.
\<close>

theorem first_match_wins:
  "is_excluded_by_gitignore patterns rel_path is_dir =
     (case find (\<lambda>p. pattern_matches p rel_path is_dir) patterns of
        None \<Rightarrow> False
      | Some p \<Rightarrow> \<not> is_negation p)
   \<and> (list_all (\<lambda>q. \<not> pattern_matches q rel_path is_dir) pre \<and> pattern_matches p rel_path is_dir
        \<longrightarrow> is_excluded_by_gitignore (pre @ p # post) rel_path is_dir = (\<not> is_negation p))
   \<and> (list_all (\<lambda>q. \<not> pattern_matches q rel_path is_dir) patterns
        \<longrightarrow> is_excluded_by_gitignore patterns rel_path is_dir = False)"
proof (intro conjI impI)
  show "is_excluded_by_gitignore patterns rel_path is_dir =
     (case find (\<lambda>p. pattern_matches p rel_path is_dir) patterns of
        None \<Rightarrow> False
      | Some p \<Rightarrow> \<not> is_negation p)"
    by (induction patterns) (simp_all add: is_excluded_step del: is_excluded_by_gitignore.simps(2))
next
  assume "list_all (\<lambda>q. \<not> pattern_matches q rel_path is_dir) pre \<and> pattern_matches p rel_path is_dir"
  then show "is_excluded_by_gitignore (pre @ p # post) rel_path is_dir = (\<not> is_negation p)"
    using is_excluded_skip_prefix[of pre rel_path is_dir "p # post"]
    by (simp add: list_all_iff is_excluded_step del: is_excluded_by_gitignore.simps(2))
next
  assume "list_all (\<lambda>q. \<not> pattern_matches q rel_path is_dir) patterns"
  then show "is_excluded_by_gitignore patterns rel_path is_dir = False"
    using is_excluded_no_match[of patterns rel_path is_dir] by (simp add: list_all_iff)
qed

lemma eval_negated_first:
  "pattern_matches (py ''!a.log'') (py ''a.log'') False"
  "pattern_matches (py ''*.log'') (py ''a.log'') False"
  "is_negation (py ''!a.log'')"
  by (simp_all add: pattern_matches_def pattern_core_def pattern_body_def is_negation_def
        is_dir_pattern_def raw_match_def py_def startswith_def endswith_def rstrip_char_def
        lstrip_char_def fnmatchcase_def basename_def py_split_def Let_def)

theorem first_match_wins_witness:
  "pattern_matches (py ''!a.log'') (py ''a.log'') False
   \<and> pattern_matches (py ''*.log'') (py ''a.log'') False
   \<and> is_excluded_by_gitignore ([] @ py ''!a.log'' # [py ''*.log'']) (py ''a.log'') False = False"
  using first_match_wins [of "[]" "py ''a.log''" False "[]" "py ''!a.log''" "[py ''*.log'']"]
    eval_negated_first
  by simp

text \<open>
  C10. A pattern that is empty once a leading \<open>!\<close> and the trailing \<open>/\<close> characters are
  removed (such as \<open>/\<close>, \<open>!\<close> or \<open>!/\<close>) matches no path, and the exclusion result is the
  same with and without it, wherever it stands in the list.
\<close>

theorem degenerate_pattern_ignored:
  "pattern_core p = [] \<Longrightarrow>
     \<not> pattern_matches p path d
     \<and> is_excluded_by_gitignore (pre @ p # post) path d = is_excluded_by_gitignore (pre @ post) path d"
proof -
  assume h: "pattern_core p = []"
  then have nm: "\<not> pattern_matches p path d" by (simp add: pattern_matches_def)
  have "is_excluded_by_gitignore (pre @ p # post) path d = is_excluded_by_gitignore (pre @ post) path d"
    by (induction pre) (simp_all add: is_excluded_step nm del: is_excluded_by_gitignore.simps(2))
  with nm show ?thesis by simp
qed

theorem degenerate_pattern_ignored_witness:
  "pattern_core (py ''!/'') = []
   \<and> \<not> pattern_matches (py ''!/'') (py ''a'') False
   \<and> is_excluded_by_gitignore ([py ''/''] @ py ''!/'' # [py ''a'']) (py ''a'') False
       = is_excluded_by_gitignore ([py ''/''] @ [py ''a'']) (py ''a'') False"
proof -
  have h: "pattern_core (py ''!/'') = []"
    by (simp add: pattern_core_def pattern_body_def is_negation_def py_def startswith_def rstrip_char_def)
  from degenerate_pattern_ignored [OF h, of "py ''a''" False "[py ''/'']" "[py ''a'']"] h
  show ?thesis by simp
qed

lemma translate_plain: "plain_chars l \<Longrightarrow> translate (l @ r) = map LITERAL l @ translate r"
  by (induction l) (auto simp: plain_chars_def)

lemma glob_match_literals:
  "glob_match (map LITERAL l @ ts) s = (startswith s l \<and> glob_match ts (drop (length l) s))"
proof (induction l arbitrary: s)
  case Nil then show ?case by (simp add: startswith_def)
next
  case (Cons x l)
  then show ?case by (cases s) (auto simp: startswith_def)
qed

lemma glob_match_star: "glob_match [STAR] s"
  by (induction s) auto

lemma fnmatchcase_prefix_star:
  "plain_chars l \<Longrightarrow> fnmatchcase path (l @ [42]) = startswith path l"
  using translate_plain[of l "[42]"] glob_match_literals[of l "[STAR]" path]
  by (simp add: fnmatchcase_def glob_match_star)

lemma startswith_append: "startswith s (a @ b) \<Longrightarrow> startswith s a"
  unfolding startswith_def
  by (metis append_eq_conv_conj append_take_drop_id take_append length_append take_all_iff order_refl append.assoc)

text \<open>
  C8, as the code has it. A rooted pattern is matched by \<open>fnmatchcase\<close> against the whole
  relative path, and the \<open>*\<close> of \<open>fnmatchcase\<close> also matches \<open>/\<close>: the rooted pattern \<open>/L*\<close>,
  for a text \<open>L\<close> without wildcard characters that does not begin with \<open>/\<close>, matches exactly
  the relative paths that begin with \<open>L\<close>, whatever follows, directory separators included.
\<close>

theorem rooted_star_crosses_slash:
  assumes "plain_chars l" "l \<noteq> []" "hd l \<noteq> 47"
  shows "pattern_matches (47 # l @ [42]) path d = startswith path l"
proof -
  let ?p = "47 # l @ [42]"
  have neg: "\<not> is_negation ?p" by (simp add: is_negation_def startswith_def py_def)
  then have body: "pattern_body ?p = ?p" by (simp add: pattern_body_def)
  have core: "pattern_core ?p = ?p" by (simp add: pattern_core_def body rstrip_char_def)
  have dirp: "\<not> is_dir_pattern ?p" by (simp add: is_dir_pattern_def body endswith_def py_def)
  have ls: "lstrip_char 47 ?p = l @ [42]"
    using assms(2,3) by (cases l) (simp_all add: lstrip_char_def)
  have "raw_match ?p path d = (fnmatchcase path (l @ [42]) \<or> startswith path ((l @ [42]) @ py ''/''))"
    by (auto simp: raw_match_def ls Let_def startswith_def py_def)
  also have "\<dots> = startswith path l"
    using fnmatchcase_prefix_star[OF assms(1), of path] startswith_append[of path l "[42] @ py ''/''"]
    by auto
  finally show ?thesis by (simp add: pattern_matches_def core dirp)
qed

theorem rooted_star_crosses_slash_witness:
  "plain_chars (py ''src'') \<and> py ''src'' \<noteq> [] \<and> hd (py ''src'') \<noteq> 47
   \<and> pattern_matches (47 # py ''src'' @ [42]) (py ''src/lib/x.py'') False"
proof -
  have h: "plain_chars (py ''src'')" "py ''src'' \<noteq> []" "hd (py ''src'') \<noteq> 47"
    by (simp_all add: plain_chars_def py_def)
  from rooted_star_crosses_slash [OF h, of "py ''src/lib/x.py''" False] h
  show ?thesis by (simp add: py_def startswith_def)
qed

text \<open>
  C8, as the claim states it, fails: the rooted pattern \<open>/a*\<close> has a wildcard and no further
  slash, and it matches the path \<open>ab/c\<close>, where the part covered by \<open>*\<close> is \<open>b/c\<close>.
\<close>

theorem rooted_star_single_segment_counterexample:
  "pattern_matches (py ''/a*'') (py ''ab/c'') False
   \<and> is_excluded_by_gitignore [py ''/a*''] (py ''ab/c'') False"
  by (simp add: pattern_matches_def pattern_core_def pattern_body_def is_negation_def is_dir_pattern_def
      raw_match_def py_def startswith_def endswith_def rstrip_char_def lstrip_char_def fnmatchcase_def Let_def)

lemma strip_ends:
  assumes "strip s \<noteq> []"
  shows "\<not> isspace (hd (strip s)) \<and> \<not> isspace (last (strip s))"
proof -
  define ys where "ys = dropWhile isspace s"
  define zs where "zs = dropWhile isspace (rev ys)"
  have st: "strip s = rev zs" by (simp add: strip_def ys_def zs_def)
  with assms have zs: "zs \<noteq> []" by simp
  then have l: "\<not> isspace (hd zs)" unfolding zs_def by (rule hd_dropWhile)
  have "rev ys = takeWhile isspace (rev ys) @ zs" by (simp add: zs_def)
  then have "ys = rev zs @ rev (takeWhile isspace (rev ys))"
    by (metis rev_append rev_rev_ident)
  with zs have "hd ys = hd (rev zs)" "ys \<noteq> []" by (metis hd_append2 rev_is_Nil_conv, auto)
  moreover have "\<not> isspace (hd ys)" using \<open>ys \<noteq> []\<close> unfolding ys_def by (rule hd_dropWhile)
  ultimately have "\<not> isspace (hd (rev zs))" by simp
  moreover have "last (rev zs) = hd zs" using zs by (simp add: last_rev)
  ultimately show ?thesis using l st by simp
qed

lemma strip_decomp:
  "\<exists>a b. s = a @ strip s @ b \<and> list_all isspace a \<and> list_all isspace b"
proof -
  define a where "a = takeWhile isspace s"
  define ys where "ys = dropWhile isspace s"
  define b where "b = rev (takeWhile isspace (rev ys))"
  have s: "s = a @ ys" by (simp add: a_def ys_def)
  have "rev (takeWhile isspace (rev ys) @ dropWhile isspace (rev ys)) = rev (rev ys)"
    by (simp only: takeWhile_dropWhile_id)
  then have "rev (dropWhile isspace (rev ys)) @ rev (takeWhile isspace (rev ys)) = ys"
    by (simp only: rev_append rev_rev_ident)
  then have ys: "ys = strip s @ b" by (simp add: strip_def ys_def b_def)
  have "list_all isspace a" by (auto simp: a_def list_all_iff dest: set_takeWhileD)
  moreover have "list_all isspace b" by (auto simp: b_def list_all_iff dest: set_takeWhileD)
  ultimately show ?thesis using s ys by blast
qed

text \<open>
  C7, as the code has it. Every line of the ignore file is stripped of the white space at
  both ends (its line end included); the lines that are then empty or begin with \<open>#\<close> are
  skipped, and the other stripped lines are the pattern list, in order. So no pattern is
  empty, begins with white space or ends with white space, and every pattern is a line
  of the file without the white space at its two ends, otherwise character for character.
\<close>

theorem load_gitignore_strips:
  "load_gitignore True (Some text)
     = filter (\<lambda>l. l \<noteq> [] \<and> \<not> startswith l (py ''#'')) (map strip (file_lines text))
   \<and> (\<forall>p\<in>set (load_gitignore True (Some text)). p \<noteq> [] \<and> \<not> isspace (hd p) \<and> \<not> isspace (last p))
   \<and> (\<forall>p\<in>set (load_gitignore True (Some text)). \<exists>line\<in>set (file_lines text). \<exists>a b.
          line = a @ p @ b \<and> list_all isspace a \<and> list_all isspace b)"
proof -
  have eq: "load_gitignore True (Some text)
     = filter (\<lambda>l. l \<noteq> [] \<and> \<not> startswith l (py ''#'')) (map strip (file_lines text))"
  proof -
    have "\<And>ls. [strip line. line \<leftarrow> ls, strip line \<noteq> [] \<and> \<not> startswith (strip line) (py ''#'')]
       = filter (\<lambda>l. l \<noteq> [] \<and> \<not> startswith l (py ''#'')) (map strip ls)"
      subgoal for ls by (induction ls) simp_all
      done
    then show ?thesis by (simp add: load_gitignore_def)
  qed
  show ?thesis
  proof (intro conjI ballI)
    show "load_gitignore True (Some text)
     = filter (\<lambda>l. l \<noteq> [] \<and> \<not> startswith l (py ''#'')) (map strip (file_lines text))" by (rule eq)
  next
    fix p assume "p \<in> set (load_gitignore True (Some text))"
    then obtain l where "p = strip l" "strip l \<noteq> []" by (auto simp: eq)
    then show "p \<noteq> []" "\<not> isspace (hd p)" "\<not> isspace (last p)" using strip_ends[of l] by simp_all
  next
    fix p assume "p \<in> set (load_gitignore True (Some text))"
    then obtain l where l: "l \<in> set (file_lines text)" "p = strip l" by (auto simp: eq)
    from strip_decomp[of l] obtain a b where "l = a @ strip l @ b" "list_all isspace a" "list_all isspace b"
      by blast
    with l show "\<exists>line\<in>set (file_lines text). \<exists>a b. line = a @ p @ b \<and> list_all isspace a \<and> list_all isspace b"
      by blast
  qed
qed

theorem load_gitignore_strips_witness:
  "load_gitignore True (Some (py ''# c\<newline> a/ \<newline>\<newline>!b''))
     = filter (\<lambda>l. l \<noteq> [] \<and> \<not> startswith l (py ''#''))
         (map strip (file_lines (py ''# c\<newline> a/ \<newline>\<newline>!b'')))
   \<and> load_gitignore True (Some (py ''# c\<newline> a/ \<newline>\<newline>!b'')) = [py ''a/'', py ''!b'']"
proof
  show "load_gitignore True (Some (py ''# c\<newline> a/ \<newline>\<newline>!b''))
     = filter (\<lambda>l. l \<noteq> [] \<and> \<not> startswith l (py ''#''))
         (map strip (file_lines (py ''# c\<newline> a/ \<newline>\<newline>!b'')))"
    using load_gitignore_strips [of "py ''# c\<newline> a/ \<newline>\<newline>!b''"] by blast
  show "load_gitignore True (Some (py ''# c\<newline> a/ \<newline>\<newline>!b'')) = [py ''a/'', py ''!b'']"
    by (simp add: load_gitignore_def file_lines_def strip_def isspace_def py_def startswith_def)
qed

text \<open>
  C7, as the claim states it, fails: the line \<open> foo \<close> (with a space on each side) is
  neither blank nor a comment, and the pattern loaded from it is \<open>foo\<close>, not the line as
  it stands.
\<close>

theorem load_gitignore_verbatim_counterexample:
  "load_gitignore True (Some (py '' foo \<newline>'')) = [py ''foo'']
   \<and> load_gitignore True (Some (py '' foo \<newline>'')) \<noteq> [py '' foo '']"
  by (simp add: load_gitignore_def file_lines_def strip_def isspace_def py_def startswith_def)

section \<open>Properties of the tree collector\<close>

lemma add_dir_items:
  "set (collected_items (add_dir r d st)) \<subseteq> insert (rel_join r d, True) (set (collected_items st))"
  by (auto simp: add_dir_def Let_def)

lemma add_file_items:
  "set (collected_items (add_file R r f st)) \<subseteq> insert (rel_join r f, False) (set (collected_items st))"
  by (auto simp: add_file_def Let_def)

lemma items_ok_step:
  "set (collected_items s') \<subseteq> insert x (set (collected_items s)) \<Longrightarrow> item_ok R x \<Longrightarrow>
   items_ok R s \<Longrightarrow> items_ok R s'"
  by (auto simp: items_ok_def)

lemma fold_invariant:
  "(\<And>x s. x \<in> set xs \<Longrightarrow> P s \<Longrightarrow> P (f x s)) \<Longrightarrow> P s \<Longrightarrow> P (fold f xs s)"
  by (induction xs arbitrary: s) auto

lemma valid_name_rel_join_nonempty: "valid_name d \<Longrightarrow> rel_join r d \<noteq> []"
  by (auto simp: rel_join_def path_join_def valid_name_def)

lemma final_dirs_props:
  assumes "d \<in> set (final_dirs R r entries)" "wf_tree entries"
  shows "valid_name d \<and> d \<notin> exclude_dirs R
         \<and> \<not> is_excluded_by_gitignore (gitignore_patterns R) (rel_join r d) True"
proof -
  from assms(1) obtain n where n: "n \<in> set entries" "node_is_dir n" "d = node_name n"
    by (auto simp: final_dirs_def dir_names_def)
  with assms(2) have "wf_node n" by (simp add: wf_tree_def list_all_iff)
  moreover have "wf_node n \<Longrightarrow> valid_name (node_name n)" by (cases n) simp_all
  ultimately have "valid_name d" using n(3) by simp
  with assms(1) show ?thesis by (simp add: final_dirs_def)
qed

lemma file_names_valid:
  assumes "f \<in> set (file_names entries)" "wf_tree entries"
  shows "valid_name f"
proof -
  from assms(1) obtain n where n: "n \<in> set entries" "\<not> node_is_dir n" "f = node_name n"
    by (auto simp: file_names_def)
  with assms(2) have "wf_node n" by (simp add: wf_tree_def list_all_iff)
  moreover have "wf_node n \<Longrightarrow> valid_name (node_name n)" by (cases n) simp_all
  ultimately show ?thesis using n(3) by simp
qed

lemma walk_items_ok:
  "kept_dir R rel_root \<Longrightarrow> wf_tree entries \<Longrightarrow> items_ok R st \<Longrightarrow> items_ok R (walk R rel_root entries st)"
proof (induction R rel_root entries st rule: walk.induct)
  case (1 R rel_root entries st)
  define dirs where "dirs = final_dirs R rel_root entries"
  define st1 where "st1 = fold (add_dir rel_root) dirs st"
  define st2 where "st2 = fold (add_file R rel_root) (file_names entries) st1"
  have kd: "kept_dir R (rel_join rel_root d) \<and> rel_join rel_root d \<noteq> []" if "d \<in> set dirs" for d
  proof -
    from that have p: "valid_name d" "d \<notin> exclude_dirs R"
      "\<not> is_excluded_by_gitignore (gitignore_patterns R) (rel_join rel_root d) True"
      using final_dirs_props[OF _ "1.prems"(2), of d R rel_root] by (simp_all add: dirs_def)
    from kept_sub[OF "1.prems"(1) p] valid_name_rel_join_nonempty[OF p(1)] show ?thesis by simp
  qed
  have ok1: "items_ok R st1"
    unfolding st1_def
  proof (rule fold_invariant[where P="items_ok R"])
    fix d s assume "d \<in> set dirs" "items_ok R s"
    then show "items_ok R (add_dir rel_root d s)"
      using kd[of d] by (intro items_ok_step[OF add_dir_items]) (simp_all add: item_ok_def)
  qed (rule "1.prems"(3))
  have ok2: "items_ok R st2"
    unfolding st2_def
  proof (rule fold_invariant[where P="items_ok R"])
    fix f s assume f: "f \<in> set (file_names entries)" and s: "items_ok R s"
    have "item_ok R (rel_join rel_root f, False)"
      using file_names_valid[OF f "1.prems"(2)] "1.prems"(1) by (auto simp: item_ok_def)
    with s show "items_ok R (add_file R rel_root f s)"
      by (intro items_ok_step[OF add_file_items])
  qed (rule ok1)
  have "items_ok R (fold (\<lambda>node s. case node of File f \<Rightarrow> s
                 | Dir d sub \<Rightarrow> if d \<in> set dirs then walk R (rel_join rel_root d) sub s else s) entries st2)"
  proof (rule fold_invariant[where P="items_ok R"])
    fix node s assume node: "node \<in> set entries" and s: "items_ok R s"
    show "items_ok R (case node of File f \<Rightarrow> s
                 | Dir d sub \<Rightarrow> if d \<in> set dirs then walk R (rel_join rel_root d) sub s else s)"
    proof (cases node)
      case (File f) with s show ?thesis by simp
    next
      case (Dir d sub)
      show ?thesis
      proof (cases "d \<in> set dirs")
        case True
        have wf: "wf_tree sub" using node Dir "1.prems"(2) by (auto simp: wf_tree_def list_all_iff)
        have "items_ok R (walk R (rel_join rel_root d) sub s)"
          using "1.IH"[OF dirs_def st1_def st2_def node Dir True _ wf s] kd[OF True] by simp
        with Dir True show ?thesis by simp
      next
        case False with Dir s show ?thesis by simp
      qed
    qed
  qed (rule ok2)
  then have "items_ok R (let dirs = final_dirs R rel_root entries;
          st1 = fold (add_dir rel_root) dirs st;
          st2 = fold (add_file R rel_root) (file_names entries) st1
      in fold (\<lambda>node s.
                 case node of
                   File f \<Rightarrow> s
                 | Dir d sub \<Rightarrow> if d \<in> set dirs then walk R (rel_join rel_root d) sub s else s)
           entries st2)"
    unfolding Let_def dirs_def st1_def st2_def .
  then show ?case by (subst walk.simps)
qed

lemma collect_items_ok:
  assumes "wf_tree root" "x \<in> set (collect R root)"
  shows "item_ok R x"
proof -
  have "items_ok R (walk R [] root \<lparr>collected_items = [], processed_paths = {}\<rparr>)"
    using assms(1) by (intro walk_items_ok kept_root) (simp_all add: items_ok_def)
  with assms(2) show ?thesis by (simp add: collect_def items_ok_def)
qed

lemma split_from_nonempty: "split_from c acc s \<noteq> []"
  by (induction s arbitrary: acc) auto

lemma split_from_append:
  "split_from c acc (a @ c # b) = split_from c acc a @ split_from c [] b"
proof (induction a arbitrary: acc)
  case Nil then show ?case by simp
next
  case (Cons x a)
  then show ?case by simp
qed

lemma split_from_plain: "c \<notin> set n \<Longrightarrow> split_from c acc n = [acc @ n]"
  by (induction n arbitrary: acc) auto

lemma kept_dir_last:
  assumes "kept_dir R r" "r \<noteq> []"
  shows "last r \<noteq> 47"
  using assms
proof (cases rule: kept_dir.cases)
  case kept_root with assms(2) show ?thesis by simp
next
  case (kept_sub r' d)
  then have d0: "d \<noteq> []" "47 \<notin> set d" by (simp_all add: valid_name_def)
  then have d: "d \<noteq> []" "last d \<noteq> 47" by (simp, metis last_in_set)
  then show ?thesis using kept_sub(1)
    by (auto simp: rel_join_def path_join_def py_def)
qed

lemma rel_join_kept:
  assumes "kept_dir R r" "valid_name d"
  shows "rel_join r d = (if r = [] then d else r @ 47 # d)"
proof (cases "r = []")
  case True then show ?thesis by (simp add: rel_join_def)
next
  case False
  with kept_dir_last[OF assms(1)] have "last r \<noteq> 47" by simp
  with False have "\<not> endswith r (py ''/'')"
    by (cases r rule: rev_cases) (auto simp: endswith_def py_def)
  moreover have "\<not> startswith d (py ''/'')"
    using assms(2) by (cases d) (auto simp: startswith_def py_def valid_name_def)
  ultimately show ?thesis using False by (simp add: rel_join_def path_join_def py_def)
qed

lemma comps_rel_join:
  assumes "kept_dir R r" "valid_name d"
  shows "py_split 47 (rel_join r d) = (if r = [] then [d] else py_split 47 r @ [d])"
  using assms(2) split_from_append[of 47 "[]" r d]
  by (simp add: rel_join_kept[OF assms] py_split_def split_from_plain valid_name_def)

lemma kept_dir_comps:
  "kept_dir R r \<Longrightarrow> r \<noteq> [] \<Longrightarrow> \<forall>c\<in>set (py_split 47 r). c \<notin> exclude_dirs R"
proof (induction rule: kept_dir.induct)
  case kept_root then show ?case by simp
next
  case (kept_sub r d)
  then show ?case by (cases "r = []") (auto simp: comps_rel_join)
qed

lemma kept_dir_top:
  "kept_dir R r \<Longrightarrow> r \<noteq> [] \<Longrightarrow>
     \<not> is_excluded_by_gitignore (gitignore_patterns R) (hd (py_split 47 r)) True"
proof (induction rule: kept_dir.induct)
  case kept_root then show ?case by simp
next
  case (kept_sub r d)
  show ?case
  proof (cases "r = []")
    case True
    moreover have "py_split 47 d = [d]"
      using kept_sub(2) by (simp add: py_split_def split_from_plain valid_name_def)
    ultimately show ?thesis using kept_sub(4) by (simp add: rel_join_def)
  next
    case False
    moreover have "py_split 47 r \<noteq> []" by (simp add: py_split_def split_from_nonempty)
    ultimately show ?thesis using kept_sub by (simp add: comps_rel_join)
  qed
qed

lemma comps_join_path:
  "cs \<noteq> [] \<Longrightarrow> py_split 47 (join_path cs) = concat (map (py_split 47) cs)"
proof (induction cs rule: join_path.induct)
  case 1 then show ?case by simp
next
  case (2 c) then show ?case by simp
next
  case (3 c d cs)
  then show ?case using split_from_append[of 47 "[]" c "join_path (d # cs)"]
    by (simp add: py_split_def py_def)
qed

lemma comps_nonempty: "py_split 47 s \<noteq> []"
  by (simp add: py_split_def split_from_nonempty)

lemma concat_comps_nonempty: "es \<noteq> [] \<Longrightarrow> concat (map (py_split 47) es) \<noteq> []"
  by (cases es) (simp_all add: comps_nonempty)

lemmas eval_defs = py_def startswith_def endswith_def rstrip_char_def lstrip_char_def py_split_def
  basename_def is_negation_def pattern_body_def is_dir_pattern_def pattern_core_def raw_match_def
  fnmatchcase_def dir_names_def file_names_def path_join_def rel_join_def splitext_ext_def lower_def
  add_dir_def add_file_def final_dirs_def collect_def Let_def

lemma wf_sample_root: "wf_tree (sample_root False False)"
  by (simp add: wf_tree_def sample_root_def valid_name_def py_def Let_def)

lemma collect_sample_root:
  "collect default_rules (sample_root swap_root swap_a)
     = [(py ''a'', True), (py ''a/b'', True), (py ''a/x.py'', False)]"
  by (cases swap_root; cases swap_a)
     (simp_all add: eval_defs sample_root_def default_rules_def DEFAULT_EXCLUDE_DIRS_def
        DEFAULT_EXCLUDE_FILES_def DEFAULT_EXCLUDE_EXTENSIONS_def)

text \<open>
  C5. In the tree collected from a well-formed root, for every rule set and every
  directory name \<open>d\<close> in \<open>exclude_dirs\<close>: no directory whose relative path ends in the
  component \<open>d\<close> is an entry, and no file or directory whose relative path lies below such
  a directory is an entry, whatever the other rules say about it. (\<open>ds\<close> are the
  components above the directory and \<open>es\<close> the components below it.)
\<close>

theorem excluded_dir_subtree_pruned:
  assumes "wf_tree root" "d \<in> exclude_dirs R" "47 \<notin> set d"
  shows "(join_path (ds @ [d]), True) \<notin> set (collect R root)
         \<and> (es \<noteq> [] \<longrightarrow> (join_path (ds @ d # es), b) \<notin> set (collect R root))"
proof -
  have comps: "py_split 47 (join_path (ds @ d # es'))
      = concat (map (py_split 47) ds) @ [d] @ concat (map (py_split 47) es')" for es'
  proof -
    have "py_split 47 (join_path (ds @ d # es')) = concat (map (py_split 47) (ds @ d # es'))"
      by (rule comps_join_path) simp
    moreover have "py_split 47 d = [d]"
      using assms(3) by (simp add: py_split_def split_from_plain)
    ultimately show ?thesis by simp
  qed
  have dirs: "(join_path (ds @ d # es'), True) \<notin> set (collect R root)" for es'
  proof
    assume "(join_path (ds @ d # es'), True) \<in> set (collect R root)"
    from collect_items_ok[OF assms(1) this]
    have "join_path (ds @ d # es') \<noteq> []" "kept_dir R (join_path (ds @ d # es'))"
      by (simp_all add: item_ok_def)
    from kept_dir_comps[OF this(2,1)] comps[of es'] assms(2) show False by simp
  qed
  have files: "(join_path (ds @ d # es), False) \<notin> set (collect R root)" if es: "es \<noteq> []"
  proof
    assume "(join_path (ds @ d # es), False) \<in> set (collect R root)"
    from collect_items_ok[OF assms(1) this]
    obtain r f where rf: "kept_dir R r" "valid_name f" "join_path (ds @ d # es) = rel_join r f"
      by (auto simp: item_ok_def)
    have ne: "concat (map (py_split 47) es) \<noteq> []" using es by (rule concat_comps_nonempty)
    have c: "concat (map (py_split 47) ds) @ [d] @ concat (map (py_split 47) es)
              = (if r = [] then [f] else py_split 47 r @ [f])"
      using comps[of es] comps_rel_join[OF rf(1,2)] rf(3) by simp
    from ne obtain Y y where Y: "concat (map (py_split 47) es) = Y @ [y]"
      by (cases "concat (map (py_split 47) es)" rule: rev_cases) auto
    show False
    proof (cases "r = []")
      case True
      with c Y have "(concat (map (py_split 47) ds) @ d # Y) @ [y] = [] @ [f]" by simp
      then have "concat (map (py_split 47) ds) @ d # Y = []" by (simp only: append1_eq_conv)
      then show False by simp
    next
      case False
      with c Y have "(concat (map (py_split 47) ds) @ d # Y) @ [y] = py_split 47 r @ [f]" by simp
      then have "concat (map (py_split 47) ds) @ d # Y = py_split 47 r" by (simp only: append1_eq_conv)
      then have "d \<in> set (py_split 47 r)" by (metis in_set_conv_decomp)
      with kept_dir_comps[OF rf(1) False] assms(2) show False by blast
    qed
  qed
  from dirs[of "[]"] dirs[of es] files show ?thesis by (cases b) auto
qed

theorem excluded_dir_subtree_pruned_witness:
  "wf_tree (sample_root False False)
   \<and> py ''node_modules'' \<in> exclude_dirs default_rules
   \<and> 47 \<notin> set (py ''node_modules'')
   \<and> (py ''node_modules'', True) \<notin> set (collect default_rules (sample_root False False))
   \<and> (py ''node_modules/z.js'', False) \<notin> set (collect default_rules (sample_root False False))"
proof -
  have h: "py ''node_modules'' \<in> exclude_dirs default_rules" "47 \<notin> set (py ''node_modules'')"
    by (simp_all add: default_rules_def DEFAULT_EXCLUDE_DIRS_def py_def)
  have j: "join_path ([] @ [py ''node_modules'']) = py ''node_modules''"
    "join_path ([] @ py ''node_modules'' # [py ''z.js'']) = py ''node_modules/z.js''"
    by (simp_all add: py_def)
  from excluded_dir_subtree_pruned [OF wf_sample_root h, of "[]" "[py ''z.js'']" False]
  show ?thesis using wf_sample_root h unfolding j by simp
qed

lemma comps_startswith:
  assumes "startswith p (n @ [47])" "47 \<notin> set n"
  shows "hd (py_split 47 p) = n"
proof -
  from assms(1) have "p = n @ 47 # drop (Suc (length n)) p"
    unfolding startswith_def by (metis append_take_drop_id append_Cons append_Nil append_assoc length_append_singleton)
  then have "py_split 47 p = split_from 47 [] n @ split_from 47 [] (drop (Suc (length n)) p)"
    using split_from_append[of 47 "[]" n "drop (Suc (length n)) p"] by (simp add: py_split_def)
  with assms(2) show ?thesis by (simp add: split_from_plain)
qed

lemma ignored_top_dir_pruned:
  assumes "wf_tree root" "is_excluded_by_gitignore (gitignore_patterns R) n True" "47 \<notin> set n"
  shows "(n, True) \<notin> set (collect R root)
         \<and> (startswith p (n @ [47]) \<longrightarrow> (p, b) \<notin> set (collect R root))"
proof -
  have top: "hd (py_split 47 q) \<noteq> n" if "kept_dir R q" "q \<noteq> []" for q
    using kept_dir_top[OF that] assms(2) by auto
  have n1: "py_split 47 n = [n]" using assms(3) by (simp add: py_split_def split_from_plain)
  have a: "(n, True) \<notin> set (collect R root)"
  proof
    assume "(n, True) \<in> set (collect R root)"
    from collect_items_ok[OF assms(1) this] have "n \<noteq> []" "kept_dir R n" by (simp_all add: item_ok_def)
    from top[OF this(2,1)] n1 show False by simp
  qed
  have b: "(p, b) \<notin> set (collect R root)" if sw: "startswith p (n @ [47])"
  proof
    assume in_c: "(p, b) \<in> set (collect R root)"
    have hd_p: "hd (py_split 47 p) = n" using sw assms(3) by (rule comps_startswith)
    have "47 \<in> set p" using sw unfolding startswith_def by (metis in_set_conv_decomp in_set_takeD)
    show False
    proof (cases b)
      case True
      with collect_items_ok[OF assms(1) in_c] have "p \<noteq> []" "kept_dir R p" by (simp_all add: item_ok_def)
      from top[OF this(2,1)] hd_p show False by simp
    next
      case False
      with collect_items_ok[OF assms(1) in_c]
      obtain r f where rf: "kept_dir R r" "valid_name f" "p = rel_join r f" by (auto simp: item_ok_def)
      show False
      proof (cases "r = []")
        case True
        with rf have "p = f" by (simp add: rel_join_def)
        with rf(2) \<open>47 \<in> set p\<close> show False by (simp add: valid_name_def)
      next
        case False
        have "hd (py_split 47 p) = hd (py_split 47 r)"
          using comps_rel_join[OF rf(1,2)] False rf(3) comps_nonempty[of r] by simp
        with top[OF rf(1) False] hd_p show False by simp
      qed
    qed
  qed
  from a b show ?thesis by blast
qed

lemma build_dir_excluded:
  "is_excluded_by_gitignore [py ''build/'', py ''!build/keep.txt''] (py ''build'') True"
  by (simp add: pattern_core_def pattern_body_def is_negation_def is_dir_pattern_def
      raw_match_def py_def startswith_def endswith_def rstrip_char_def lstrip_char_def
      fnmatchcase_def basename_def py_split_def Let_def)

text \<open>
  C4, as the code has it. With the ignore patterns \<open>build/\<close> and \<open>!build/keep.txt\<close> in
  effect, whatever the other exclusion lists are, the tree collected from a well-formed
  root has no entry for the directory \<open>build\<close> and no entry below it, so neither
  \<open>build/tmp.o\<close> nor \<open>build/keep.txt\<close> is collected: the directory \<open>build\<close> itself is
  excluded and the walk does not enter it.
\<close>

theorem build_dir_pruned:
  assumes "wf_tree root" "gitignore_patterns R = [py ''build/'', py ''!build/keep.txt'']"
  shows "(py ''build'', True) \<notin> set (collect R root)
         \<and> (py ''build/tmp.o'', False) \<notin> set (collect R root)
         \<and> (py ''build/keep.txt'', False) \<notin> set (collect R root)
         \<and> (startswith p (py ''build/'') \<longrightarrow> (p, b) \<notin> set (collect R root))"
proof -
  have ex: "is_excluded_by_gitignore (gitignore_patterns R) (py ''build'') True"
    using build_dir_excluded assms(2) by simp
  have ns: "47 \<notin> set (py ''build'')" by (simp add: py_def)
  have e: "py ''build'' @ [47] = py ''build/''" by (simp add: py_def)
  note g = ignored_top_dir_pruned[OF assms(1) ex ns, unfolded e]
  have "startswith (py ''build/tmp.o'') (py ''build/'')" "startswith (py ''build/keep.txt'') (py ''build/'')"
    by (simp_all add: startswith_def py_def)
  with g[of "py ''build/tmp.o''" False] g[of "py ''build/keep.txt''" False] g[of p b]
  show ?thesis by blast
qed

theorem build_dir_pruned_witness:
  "wf_tree build_root
   \<and> gitignore_patterns build_rules = [py ''build/'', py ''!build/keep.txt'']
   \<and> (py ''build'', True) \<notin> set (collect build_rules build_root)
   \<and> (py ''build/tmp.o'', False) \<notin> set (collect build_rules build_root)
   \<and> (py ''build/keep.txt'', False) \<notin> set (collect build_rules build_root)
   \<and> collect build_rules build_root = []"
proof -
  have h: "wf_tree build_root"
    "gitignore_patterns build_rules = [py ''build/'', py ''!build/keep.txt'']"
    by (simp_all add: wf_tree_def build_root_def build_rules_def valid_name_def py_def)
  have e: "collect build_rules build_root = []"
    by (simp add: eval_defs build_root_def build_rules_def)
  from build_dir_pruned [OF h, of "[]" False] h e show ?thesis by simp
qed

text \<open>
  C4, as the claim states it, fails in its reason: the pattern \<open>build/\<close> matches neither
  \<open>build/tmp.o\<close> nor \<open>build/keep.txt\<close>, because a pattern with a trailing slash does not
  match a path that is not a directory, and for both file paths the ignore-exclusion
  function returns \<open>False\<close>.
\<close>

theorem build_pattern_on_files_counterexample:
  "\<not> pattern_matches (py ''build/'') (py ''build/tmp.o'') False
   \<and> \<not> pattern_matches (py ''build/'') (py ''build/keep.txt'') False
   \<and> \<not> is_excluded_by_gitignore [py ''build/'', py ''!build/keep.txt''] (py ''build/tmp.o'') False
   \<and> \<not> is_excluded_by_gitignore [py ''build/'', py ''!build/keep.txt''] (py ''build/keep.txt'') False"
  by (simp add: pattern_matches_def pattern_core_def pattern_body_def is_negation_def
      is_dir_pattern_def raw_match_def py_def startswith_def endswith_def rstrip_char_def
      lstrip_char_def fnmatchcase_def basename_def py_split_def Let_def)

text \<open>
  C6, as the code has it. For the root with the files \<open>a/x.py\<close>, \<open>a/b/y.log\<close> and
  \<open>node_modules/z.js\<close>, the default exclusion lists and no ignore patterns, the collected
  tree is the directory \<open>a\<close>, the directory \<open>a/b\<close> and the file \<open>a/x.py\<close>, in this order,
  whatever the order in which the directories are listed: \<open>node_modules\<close> is pruned with
  its content, and \<open>a/b/y.log\<close> is excluded by its extension.
\<close>

theorem collect_sample_root_default:
  "collect default_rules (sample_root swap_root swap_a)
     = [(py ''a'', True), (py ''a/b'', True), (py ''a/x.py'', False)]
   \<and> lower (splitext_ext (py ''y.log'')) \<in> exclude_extensions default_rules
   \<and> py ''node_modules'' \<in> exclude_dirs default_rules"
  using collect_sample_root [of swap_root swap_a]
  by (simp add: default_rules_def DEFAULT_EXCLUDE_DIRS_def DEFAULT_EXCLUDE_EXTENSIONS_def
        splitext_ext_def lower_def basename_def py_def)

text \<open>
  C6, as the claim states it, fails: the file \<open>a/b/y.log\<close> is not in the collected tree,
  so the tree is not the set of four entries of the claim.
\<close>

theorem collect_sample_root_counterexample:
  "(py ''a/b/y.log'', False) \<notin> set (collect default_rules (sample_root False False))
   \<and> set (collect default_rules (sample_root False False))
       \<noteq> {(py ''a'', True), (py ''a/x.py'', False), (py ''a/b'', True), (py ''a/b/y.log'', False)}"
proof -
  have c: "collect default_rules (sample_root False False)
     = [(py ''a'', True), (py ''a/b'', True), (py ''a/x.py'', False)]"
    by (rule collect_sample_root)
  have n: "(py ''a/b/y.log'', False) \<notin> set (collect default_rules (sample_root False False))"
    unfolding c by (simp add: py_def)
  then have "set (collect default_rules (sample_root False False))
       \<noteq> {(py ''a'', True), (py ''a/x.py'', False), (py ''a/b'', True), (py ''a/b/y.log'', False)}"
    by blast
  with n show ?thesis by simp
qed

section \<open>Properties of the output text\<close>

lemma count_char_zero: "c \<notin> set s \<Longrightarrow> count_char c s = 0"
  by (induction s) (auto simp: count_char_def)

lemma concat_replicate_two_spaces: "concat (replicate n (py ''  '')) = replicate (2 * n) 32"
  by (induction n) (simp_all add: py_def)

lemma process_item_structure_lines:
  "fst item \<noteq> [] \<Longrightarrow>
   structure_lines (process_item incl only root_dir read item st)
     = structure_lines st @ (if incl \<or> only then [entry_line item] else [])"
  by (cases "read (fst item)")
     (auto simp: process_item_def entry_line_def Let_def count_char_zero concat_replicate_two_spaces)

lemma process_item_file_contents:
  "file_contents (process_item incl only root_dir read item st)
     = file_contents st @ (if \<not> snd item \<and> \<not> only
                            then [file_record (fst item) (record_content (read (fst item)))] else [])"
  by (cases "read (fst item)") (auto simp: process_item_def file_record_def Let_def py_def)

lemma fold_process_item_structure_lines:
  "list_all (\<lambda>item. fst item \<noteq> []) items \<Longrightarrow>
   structure_lines (fold (process_item incl only root_dir read) items st)
     = structure_lines st @ (if incl \<or> only then map entry_line items else [])"
  by (induction items arbitrary: st) (simp_all add: process_item_structure_lines)

lemma fold_process_item_file_contents:
  "file_contents (fold (process_item incl only root_dir read) items st)
     = file_contents st @ (if only then []
         else map (\<lambda>item. file_record (fst item) (record_content (read (fst item))))
                (filter (\<lambda>item. \<not> snd item) items))"
  by (induction items arbitrary: st) (simp_all add: process_item_file_contents)

lemma collect_paths_nonempty:
  assumes "wf_tree root"
  shows "list_all (\<lambda>item. fst item \<noteq> []) (collect R root)"
proof -
  have "fst x \<noteq> []" if "x \<in> set (collect R root)" for x
  proof (cases "snd x")
    case True
    with collect_items_ok[OF assms that] show ?thesis by (simp add: item_ok_def)
  next
    case False
    with collect_items_ok[OF assms that] obtain r f where "valid_name f" "fst x = rel_join r f"
      by (auto simp: item_ok_def)
    then show ?thesis using valid_name_rel_join_nonempty[of f r] by simp
  qed
  then show ?thesis by (simp add: list_all_iff)
qed

text \<open>
  C9. For items with non-empty relative paths (as all collected items have, by
  \<open>collect_paths_nonempty\<close>): the structure summary, when it is asked for, is the header
  of two lines, then one line per item, joined by line feeds, then two line feeds; the
  line of an item is two spaces for every \<open>/\<close> of its relative path, then the marker of
  a directory or of a file, then the base name. The combined content, unless only the
  structure is asked for, is one record per file, in order, and the record is
  \<open>>>>File: \<close>, the relative path, two line feeds, the content, two line feeds, forty
  \<open>=\<close> and a line feed; the content is the text of the file, or that text after the
  warning line when it was read as Latin-1, or the bracketed error message.
\<close>

theorem output_format:
  assumes "list_all (\<lambda>item. fst item \<noteq> []) items"
  shows "fst (run_output include_structure structure_only root_dir read items)
           = (if include_structure \<or> structure_only
              then py ''Directory Structure:\<newline>====================\<newline>''
                     @ join_lines (map entry_line items) @ py ''\<newline>\<newline>''
              else [])
         \<and> fst (snd (run_output include_structure structure_only root_dir read items))
           = (if structure_only then []
              else concat (map (\<lambda>item. file_record (fst item) (record_content (read (fst item))))
                             (filter (\<lambda>item. \<not> snd item) items)))
         \<and> entry_line (rel_path, is_dir)
           = replicate (2 * count_char 47 rel_path) 32
               @ (if is_dir then dir_icon else file_icon) @ basename rel_path
         \<and> file_record rel_path content
           = py ''>>>File: '' @ rel_path @ py ''\<newline>\<newline>'' @ content @ py ''\<newline>\<newline>''
               @ replicate 40 61 @ py ''\<newline>''"
proof -
  let ?st = "fold (process_item include_structure structure_only root_dir read) items
               \<lparr>structure_lines = [], file_contents = [], errors = []\<rparr>"
  have sl: "structure_lines ?st = (if include_structure \<or> structure_only then map entry_line items else [])"
    using fold_process_item_structure_lines[OF assms] by simp
  have fc: "file_contents ?st = (if structure_only then []
         else map (\<lambda>item. file_record (fst item) (record_content (read (fst item))))
                (filter (\<lambda>item. \<not> snd item) items))"
    using fold_process_item_file_contents[of include_structure structure_only root_dir read items] by simp
  show ?thesis
    unfolding run_output_def Let_def fst_conv snd_conv sl fc
    by (simp add: entry_line_def file_record_def)
qed

theorem output_format_witness:
  "list_all (\<lambda>item. fst item \<noteq> []) [(py ''a'', True), (py ''a/x.py'', False)]
   \<and> fst (run_output True False (py ''proj'') (\<lambda>p. ReadUtf8 (py ''hi''))
             [(py ''a'', True), (py ''a/x.py'', False)])
       = py ''Directory Structure:\<newline>====================\<newline>'' @ dir_icon @ py ''a\<newline>  ''
           @ file_icon @ py ''x.py\<newline>\<newline>''
   \<and> fst (snd (run_output True False (py ''proj'') (\<lambda>p. ReadUtf8 (py ''hi''))
                  [(py ''a'', True), (py ''a/x.py'', False)]))
       = py ''>>>File: a/x.py\<newline>\<newline>hi\<newline>\<newline>========================================\<newline>''"
proof -
  have h: "list_all (\<lambda>item. fst item \<noteq> []) [(py ''a'', True), (py ''a/x.py'', False)]"
    by (simp add: py_def)
  note o = output_format [OF h, where include_structure = True and structure_only = False
      and root_dir = "py ''proj''" and read = "\<lambda>p. ReadUtf8 (py ''hi'')"
      and rel_path = "[]" and is_dir = True and content = "[]"]
  have a: "fst (run_output True False (py ''proj'') (\<lambda>p. ReadUtf8 (py ''hi''))
             [(py ''a'', True), (py ''a/x.py'', False)])
       = py ''Directory Structure:\<newline>====================\<newline>''
           @ join_lines (map entry_line [(py ''a'', True), (py ''a/x.py'', False)]) @ py ''\<newline>\<newline>''"
    using o by simp
  have b: "fst (snd (run_output True False (py ''proj'') (\<lambda>p. ReadUtf8 (py ''hi''))
                  [(py ''a'', True), (py ''a/x.py'', False)]))
       = concat (map (\<lambda>item. file_record (fst item) (record_content (ReadUtf8 (py ''hi''))))
                   (filter (\<lambda>item. \<not> snd item) [(py ''a'', True), (py ''a/x.py'', False)]))"
    using o by simp
  show ?thesis
    unfolding a b using h
    by (simp add: entry_line_def file_record_def count_char_def basename_def py_def
          eval_nat_numeral)
qed

end
